theory Spec2Isabelle
  imports Main "HOL-Library.Word"
begin

section \<open>Python values and exceptions\<close>

text \<open>
  The decoder of \<^verbatim>\<open>krds.py\<close> is dynamically typed. Its values are modelled by one
  datatype. A Python \<^verbatim>\<open>bytes\<close> object is a list of 8-bit words; a Python \<^verbatim>\<open>str\<close> is kept
  as its UTF-8 encoding, one \<^typ>\<open>char\<close> per byte (two strings are equal exactly when their
  encodings are). \<^verbatim>\<open>dict\<close> and \<^verbatim>\<open>OrderedDict\<close> are association lists in insertion order.
\<close>

type_synonym byte = "8 word"

text \<open>
  A Python float is an IEEE-754 double. \<open>FFin s m e\<close> stands for the number
  \<open>(-1)^s * m * 2^e\<close>; the sign is kept so that \<open>-0.0\<close> is told from \<open>0.0\<close>.
\<close>

datatype pyfloat = FNaN | FInf bool | FFin bool nat int

datatype pyval =
    PyNone
  | PyBool bool
  | PyInt int
  | PyFloat pyfloat
  | PyStr string
  | PyBytes "byte list"
  | PyList "pyval list"
  | PyDict "(pyval \<times> pyval) list"

text \<open>
  Every \<^verbatim>\<open>raise\<close> of the source and every exception of a builtin it calls is a value.
  The source raises the bare class \<^verbatim>\<open>Exception\<close> with a message; one constructor stands
  for each message, carrying the values formatted into it.
\<close>

datatype error =
    InsufficientData int nat
      \<comment> \<open>"Deserializer: Insufficient data (need %d bytes, have %d bytes)"\<close>
  | SignatureIncorrect
      \<comment> \<open>"KindleReaderDataStore signature is incorrect"\<close>
  | FirstValue pyval
      \<comment> \<open>"first_value = %s"\<close>
  | DuplicateItem pyval
      \<comment> \<open>"KindleReaderDataStore has duplicate item %s"\<close>
  | UnknownBoolean pyval
      \<comment> \<open>"Unknown boolean value %d"\<close>
  | UnknownDatatype pyval
      \<comment> \<open>"Unknown datatype %d"\<close>
  | UnknownLprVersion pyval
      \<comment> \<open>"Unknown lpr version %d"\<close>
  | UnknownAnnotationType pyval
      \<comment> \<open>"Unknown annotation type %d"\<close>
  | UnknownAnnotationFormat pyval
      \<comment> \<open>"Unknown annotation format: %s"\<close>
  | ExcessValues string "pyval list"
      \<comment> \<open>"Excess values found for structure %s: %s"\<close>
  | StructError
      \<comment> \<open>\<^verbatim>\<open>struct.error\<close>: the buffer is too short for the format\<close>
  | UnicodeDecodeError
  | IndexError
      \<comment> \<open>\<^verbatim>\<open>pop from empty list\<close>\<close>
  | TypeError
  | KeyError
  | ValueError
  | OverflowError
  | AttributeError
  | OSError

section \<open>Deserializer: the cursor over the byte buffer\<close>

record Deserializer =
  buffer :: "byte list"
  offset :: int

text \<open>\<^verbatim>\<open>Deserializer.__init__\<close>\<close>

definition Deserializer_init :: "byte list \<Rightarrow> Deserializer" where
  "Deserializer_init dat = \<lparr>buffer = dat, offset = 0\<rparr>"

text \<open>\<^verbatim>\<open>Deserializer.__len__\<close>\<close>

definition len_Deserializer :: "Deserializer \<Rightarrow> int" where
  "len_Deserializer d = int (length (buffer d)) - offset d"

text \<open>
  Python's slice \<^verbatim>\<open>xs[start:stop]\<close>: a negative index counts from the end, and both
  indices are clamped to the sequence.
\<close>

definition slice_index :: "nat \<Rightarrow> int \<Rightarrow> nat" where
  "slice_index n i = (if i < 0 then nat (max (i + int n) 0) else min (nat i) n)"

definition py_slice :: "'a list \<Rightarrow> int \<Rightarrow> int \<Rightarrow> 'a list" where
  "py_slice xs start stop =
     (let lo = slice_index (length xs) start; hi = slice_index (length xs) stop
      in take (hi - lo) (drop lo xs))"

text \<open>The format strings that the source hands to \<^verbatim>\<open>struct\<close>.\<close>

datatype fmt =
    Fmt_b   \<comment> \<open>\<^verbatim>\<open>"b"\<close>: signed byte\<close>
  | Fmt_c   \<comment> \<open>\<^verbatim>\<open>"c"\<close>: one byte, as \<^verbatim>\<open>bytes\<close>\<close>
  | Fmt_h   \<comment> \<open>\<^verbatim>\<open>">h"\<close>: big-endian signed 16 bits\<close>
  | Fmt_H   \<comment> \<open>\<^verbatim>\<open>">H"\<close>: big-endian unsigned 16 bits\<close>
  | Fmt_l   \<comment> \<open>\<^verbatim>\<open>">l"\<close>: big-endian signed 32 bits\<close>
  | Fmt_q   \<comment> \<open>\<^verbatim>\<open>">q"\<close>: big-endian signed 64 bits\<close>
  | Fmt_f   \<comment> \<open>\<^verbatim>\<open>">f"\<close>: big-endian IEEE-754 single\<close>
  | Fmt_d   \<comment> \<open>\<^verbatim>\<open>">d"\<close>: big-endian IEEE-754 double\<close>

fun calcsize :: "fmt \<Rightarrow> nat" where
  "calcsize Fmt_b = 1"
| "calcsize Fmt_c = 1"
| "calcsize Fmt_h = 2"
| "calcsize Fmt_H = 2"
| "calcsize Fmt_l = 4"
| "calcsize Fmt_q = 8"
| "calcsize Fmt_f = 4"
| "calcsize Fmt_d = 8"

definition be_uint :: "byte list \<Rightarrow> nat" where
  "be_uint bs = foldl (\<lambda>a b. a * 256 + unat b) 0 bs"

definition be_sint :: "byte list \<Rightarrow> int" where
  "be_sint bs =
     (let u = int (be_uint bs); w = 8 * length bs
      in if 2 ^ (w - 1) \<le> u then u - 2 ^ w else u)"

text \<open>
  The number held by an IEEE-754 bit pattern with \<open>ebits\<close> exponent bits and \<open>mbits\<close>
  fraction bits. A single is widened to a double without rounding, so the number is the
  same.
\<close>

definition ieee_value :: "nat \<Rightarrow> nat \<Rightarrow> nat \<Rightarrow> pyfloat" where
  "ieee_value ebits mbits u =
     (let s = (u div 2 ^ (ebits + mbits)) mod 2 = 1;
          e = (u div 2 ^ mbits) mod 2 ^ ebits;
          m = u mod 2 ^ mbits;
          bias = 2 ^ (ebits - 1) - 1
      in if e = 2 ^ ebits - 1 then (if m = 0 then FInf s else FNaN)
         else if e = 0 then FFin s m (1 - int bias - int mbits)
         else FFin s (2 ^ mbits + m) (int e - int bias - int mbits))"

fun unpack_value :: "fmt \<Rightarrow> byte list \<Rightarrow> pyval" where
  "unpack_value Fmt_b bs = PyInt (be_sint bs)"
| "unpack_value Fmt_c bs = PyBytes bs"
| "unpack_value Fmt_h bs = PyInt (be_sint bs)"
| "unpack_value Fmt_H bs = PyInt (int (be_uint bs))"
| "unpack_value Fmt_l bs = PyInt (be_sint bs)"
| "unpack_value Fmt_q bs = PyInt (be_sint bs)"
| "unpack_value Fmt_f bs = PyFloat (ieee_value 8 23 (be_uint bs))"
| "unpack_value Fmt_d bs = PyFloat (ieee_value 11 52 (be_uint bs))"

text \<open>
  \<^verbatim>\<open>struct.unpack_from(fmt, buffer, offset)[0]\<close>: a negative offset counts from the end
  of the buffer; the call raises \<^verbatim>\<open>struct.error\<close> when the offset is out of range or
  fewer bytes than the format needs follow it.
\<close>

definition unpack_from :: "fmt \<Rightarrow> byte list \<Rightarrow> int \<Rightarrow> error + pyval" where
  "unpack_from f buf off =
     (let n = int (length buf); off' = (if off < 0 then off + n else off)
      in if off' < 0 \<or> n - off' < int (calcsize f) then Inl StructError
         else Inr (unpack_value f (take (calcsize f) (drop (nat off') buf))))"

text \<open>
  \<^verbatim>\<open>Deserializer.unpack\<close>. An exception leaves the object as it was, so every operation
  returns the cursor beside its result.
\<close>

definition unpack :: "fmt \<Rightarrow> bool \<Rightarrow> Deserializer \<Rightarrow> (error + pyval) \<times> Deserializer" where
  "unpack f advance d =
     (case unpack_from f (buffer d) (offset d) of
        Inl e \<Rightarrow> (Inl e, d)
      | Inr result \<Rightarrow>
          (Inr result, if advance then d\<lparr>offset := offset d + int (calcsize f)\<rparr> else d))"

text \<open>\<^verbatim>\<open>Deserializer.extract\<close> (\<open>extract\<close> is a reserved word here)\<close>

definition extract_data ::
  "int option \<Rightarrow> int option \<Rightarrow> bool \<Rightarrow> Deserializer \<Rightarrow> (error + byte list) \<times> Deserializer" where
  "extract_data size_arg upto_arg advance d =
     (let sz = (case size_arg of
                  Some n \<Rightarrow> n
                | None \<Rightarrow> (case upto_arg of None \<Rightarrow> len_Deserializer d | Some u \<Rightarrow> u - offset d));
          dat = py_slice (buffer d) (offset d) (offset d + sz)
      in if int (length dat) < sz \<or> sz < 0 then (Inl (InsufficientData sz (length dat)), d)
         else (Inr dat, if advance then d\<lparr>offset := offset d + sz\<rparr> else d))"

text \<open>
  A use of the cursor is one of its two operations with its arguments. \<open>run\<close> applies a
  sequence of them to a cursor; a caller that catches an exception goes on with the
  object as the failed call left it.
\<close>

datatype cursor_op =
    Unpack fmt bool
  | Extract "int option" "int option" bool

fun step :: "cursor_op \<Rightarrow> Deserializer \<Rightarrow> Deserializer" where
  "step (Unpack f advance) d = snd (unpack f advance d)"
| "step (Extract size_arg upto_arg advance) d = snd (extract_data size_arg upto_arg advance d)"

fun failed :: "cursor_op \<Rightarrow> Deserializer \<Rightarrow> bool" where
  "failed (Unpack f advance) d = isl (fst (unpack f advance d))"
| "failed (Extract size_arg upto_arg advance) d = isl (fst (extract_data size_arg upto_arg advance d))"

definition run :: "cursor_op list \<Rightarrow> Deserializer \<Rightarrow> Deserializer" where
  "run ops d = foldl (\<lambda>s c. step c s) d ops"

section \<open>Builtin operations on values\<close>

text \<open>
  The source relies on Python's dynamic typing: \<^verbatim>\<open>==\<close>, \<^verbatim>\<open><=\<close>, \<^verbatim>\<open>range\<close>, \<^verbatim>\<open>len\<close>,
  \<^verbatim>\<open>in\<close>, subscripts and dictionary keys work across \<^verbatim>\<open>bool\<close>, \<^verbatim>\<open>int\<close> and
  \<^verbatim>\<open>float\<close>, and raise \<^verbatim>\<open>TypeError\<close> on the other types. Each builtin the source calls is
  written out for every value.
\<close>

text \<open>Sequencing of two steps, the first of which may raise.\<close>

definition andthen :: "error + 'a \<Rightarrow> ('a \<Rightarrow> error + 'b) \<Rightarrow> error + 'b" where
  "andthen r f = (case r of Inl e \<Rightarrow> Inl e | Inr x \<Rightarrow> f x)"

text \<open>
  A number is not-a-number, an infinity with its sign, or \<open>m * 2^e\<close> for integers \<open>m\<close>
  and \<open>e\<close>. \<^verbatim>\<open>True\<close> counts as 1 and \<^verbatim>\<open>False\<close> as 0.
\<close>

datatype pynum = NNaN | NInf bool | NDyadic int int

fun to_num :: "pyval \<Rightarrow> pynum option" where
  "to_num (PyBool b) = Some (NDyadic (if b then 1 else 0) 0)"
| "to_num (PyInt i) = Some (NDyadic i 0)"
| "to_num (PyFloat FNaN) = Some NNaN"
| "to_num (PyFloat (FInf s)) = Some (NInf s)"
| "to_num (PyFloat (FFin s m e)) = Some (NDyadic (if s then - int m else int m) e)"
| "to_num _ = None"

fun num_eq :: "pynum \<Rightarrow> pynum \<Rightarrow> bool" where
  "num_eq (NDyadic m1 e1) (NDyadic m2 e2) =
     (m1 * 2 ^ nat (e1 - min e1 e2) = m2 * 2 ^ nat (e2 - min e1 e2))"
| "num_eq (NInf s1) (NInf s2) = (s1 = s2)"
| "num_eq _ _ = False"

fun num_le :: "pynum \<Rightarrow> pynum \<Rightarrow> bool" where
  "num_le (NDyadic m1 e1) (NDyadic m2 e2) =
     (m1 * 2 ^ nat (e1 - min e1 e2) \<le> m2 * 2 ^ nat (e2 - min e1 e2))"
| "num_le NNaN _ = False"
| "num_le _ NNaN = False"
| "num_le (NInf s1) (NInf s2) = (s1 \<or> \<not> s2)"
| "num_le (NInf s) (NDyadic _ _) = s"
| "num_le (NDyadic _ _) (NInf s) = (\<not> s)"

text \<open>\<^verbatim>\<open>v == k\<close> for a value \<open>v\<close> and an integer literal \<open>k\<close>.\<close>

definition py_eq_int :: "pyval \<Rightarrow> int \<Rightarrow> bool" where
  "py_eq_int v k = (case to_num v of Some n \<Rightarrow> num_eq n (NDyadic k 0) | None \<Rightarrow> False)"

text \<open>
  \<^verbatim>\<open>v <= k\<close> for an integer literal \<open>k\<close>: a value that is not a number cannot be ordered
  against an \<^verbatim>\<open>int\<close>.
\<close>

definition py_le_int :: "pyval \<Rightarrow> int \<Rightarrow> error + bool" where
  "py_le_int v k = (case to_num v of Some n \<Rightarrow> Inr (num_le n (NDyadic k 0)) | None \<Rightarrow> Inl TypeError)"

text \<open>
  \<^verbatim>\<open>"... %d" % v\<close> raises for a value that is no number, and for a float that has no
  integer part. \<open>raise_d mk v\<close> is the exception that \<^verbatim>\<open>raise Exception("... %d" % v)\<close>
  ends with.
\<close>

fun format_d_error :: "pyval \<Rightarrow> error option" where
  "format_d_error (PyBool _) = None"
| "format_d_error (PyInt _) = None"
| "format_d_error (PyFloat FNaN) = Some ValueError"
| "format_d_error (PyFloat (FInf _)) = Some OverflowError"
| "format_d_error (PyFloat (FFin _ _ _)) = None"
| "format_d_error _ = Some TypeError"

definition raise_d :: "(pyval \<Rightarrow> error) \<Rightarrow> pyval \<Rightarrow> error" where
  "raise_d mk v = (case format_d_error v of Some e \<Rightarrow> e | None \<Rightarrow> mk v)"

text \<open>\<^verbatim>\<open>range(v)\<close>, as the number of iterations of a \<^verbatim>\<open>for\<close> loop over it.\<close>

fun py_range :: "pyval \<Rightarrow> error + nat" where
  "py_range (PyInt i) = Inr (nat i)"
| "py_range (PyBool b) = Inr (if b then 1 else 0)"
| "py_range _ = Inl TypeError"

text \<open>
  Dictionary keys. A list or a dictionary cannot be hashed; two numbers are the same key
  when they are equal as numbers; every decoded not-a-number is an object of its own and
  equals no other key.
\<close>

fun hashable :: "pyval \<Rightarrow> bool" where
  "hashable (PyList _) = False"
| "hashable (PyDict _) = False"
| "hashable _ = True"

definition key_eq :: "pyval \<Rightarrow> pyval \<Rightarrow> bool" where
  "key_eq a b =
     (case (to_num a, to_num b) of
        (Some m, Some n) \<Rightarrow> num_eq m n
      | (None, None) \<Rightarrow> a = b
      | _ \<Rightarrow> False)"

fun dict_get :: "(pyval \<times> 'v) list \<Rightarrow> pyval \<Rightarrow> 'v option" where
  "dict_get [] k = None"
| "dict_get ((k', v') # kvs) k = (if key_eq k' k then Some v' else dict_get kvs k)"

text \<open>
  \<^verbatim>\<open>d[k] = v\<close> on a dictionary that keeps insertion order: a key already present keeps
  its place (and its first spelling) and takes the new value; a new key goes to the end.
\<close>

fun dict_set :: "(pyval \<times> pyval) list \<Rightarrow> pyval \<Rightarrow> pyval \<Rightarrow> (pyval \<times> pyval) list" where
  "dict_set [] k v = [(k, v)]"
| "dict_set ((k', v') # kvs) k v =
     (if key_eq k' k then (k', v) # kvs else (k', v') # dict_set kvs k v)"

definition setitem ::
  "(pyval \<times> pyval) list \<Rightarrow> pyval \<Rightarrow> pyval \<Rightarrow> error + (pyval \<times> pyval) list" where
  "setitem d k v = (if hashable k then Inr (dict_set d k v) else Inl TypeError)"

text \<open>\<^verbatim>\<open>k in d\<close> for a dictionary \<open>d\<close>.\<close>

definition dict_contains :: "(pyval \<times> pyval) list \<Rightarrow> pyval \<Rightarrow> error + bool" where
  "dict_contains d k = (if hashable k then Inr (dict_get d k \<noteq> None) else Inl TypeError)"

text \<open>
  A \<^verbatim>\<open>str\<close> is held as its UTF-8 bytes: its characters start at the bytes that are not
  continuation bytes (\<open>10xxxxxx\<close>).
\<close>

definition is_continuation :: "char \<Rightarrow> bool" where
  "is_continuation c = ((of_char c :: nat) div 64 = 2)"

definition utf8_chars :: "string \<Rightarrow> string list" where
  "utf8_chars s =
     (let (pending, groups) =
            foldr (\<lambda>c (pending, groups).
                     if is_continuation c then (c # pending, groups)
                     else ([], (c # pending) # groups)) s ([], [])
      in if pending = [] then groups else pending # groups)"

definition is_substring :: "'a list \<Rightarrow> 'a list \<Rightarrow> bool" where
  "is_substring s t = list_ex (\<lambda>i. take (length s) (drop i t) = s) [0 ..< Suc (length t)]"

text \<open>\<^verbatim>\<open>len(v)\<close>\<close>

fun py_len :: "pyval \<Rightarrow> error + nat" where
  "py_len (PyList xs) = Inr (length xs)"
| "py_len (PyDict kvs) = Inr (length kvs)"
| "py_len (PyStr s) = Inr (length (filter (\<lambda>c. \<not> is_continuation c) s))"
| "py_len (PyBytes bs) = Inr (length bs)"
| "py_len _ = Inl TypeError"

text \<open>\<^verbatim>\<open>s in v\<close> for a string \<open>s\<close>\<close>

fun py_contains_str :: "string \<Rightarrow> pyval \<Rightarrow> error + bool" where
  "py_contains_str s (PyDict kvs) = Inr (dict_get kvs (PyStr s) \<noteq> None)"
| "py_contains_str s (PyList xs) = Inr (PyStr s \<in> set xs)"
| "py_contains_str s (PyStr t) = Inr (is_substring s t)"
| "py_contains_str s _ = Inl TypeError"

text \<open>\<^verbatim>\<open>v[s]\<close> for a string \<open>s\<close>\<close>

fun py_getitem_str :: "string \<Rightarrow> pyval \<Rightarrow> error + pyval" where
  "py_getitem_str s (PyDict kvs) = (case dict_get kvs (PyStr s) of None \<Rightarrow> Inl KeyError | Some v \<Rightarrow> Inr v)"
| "py_getitem_str s _ = Inl TypeError"

text \<open>The elements that \<^verbatim>\<open>for x in v\<close> runs over.\<close>

fun py_iter :: "pyval \<Rightarrow> error + pyval list" where
  "py_iter (PyList xs) = Inr xs"
| "py_iter (PyDict kvs) = Inr (map fst kvs)"
| "py_iter (PyStr s) = Inr (map PyStr (utf8_chars s))"
| "py_iter (PyBytes bs) = Inr (map (\<lambda>b. PyInt (uint b)) bs)"
| "py_iter _ = Inl TypeError"

text \<open>\<^verbatim>\<open>val.pop(0)\<close>: the first element and the rest, or \<^verbatim>\<open>IndexError\<close> on the empty list.\<close>

fun pop0 :: "pyval list \<Rightarrow> error + pyval \<times> pyval list" where
  "pop0 [] = Inl IndexError"
| "pop0 (x # xs) = Inr (x, xs)"

text \<open>
  \<^verbatim>\<open>datetime.datetime.fromtimestamp(t / 1000.0).isoformat()\<close> depends on the time zone of
  the machine and raises outside the range of years of the platform. It is a parameter
  \<open>clock\<close> of the decoder, applied to numbers only: the division raises \<^verbatim>\<open>TypeError\<close>
  on any other value.
\<close>

type_synonym clock = "pyval \<Rightarrow> error + string"

definition isoformat_millis :: "clock \<Rightarrow> pyval \<Rightarrow> error + pyval" where
  "isoformat_millis clock t =
     (if to_num t = None then Inl TypeError
      else andthen (clock t) (\<lambda>s. Inr (PyStr s)))"

text \<open>\<^verbatim>\<open>f(time) if time != -1 else None\<close>\<close>

definition unless_sentinel :: "(pyval \<Rightarrow> error + pyval) \<Rightarrow> pyval \<Rightarrow> error + pyval" where
  "unless_sentinel f t = (if \<not> py_eq_int t (- 1) then f t else Inr PyNone)"

text \<open>\<^verbatim>\<open>KindleReaderDataStore.decode_position\<close>\<close>

definition decode_position :: "pyval \<Rightarrow> pyval" where
  "decode_position position = position"

section \<open>decode\_object: the layout of each named structure\<close>

text \<open>
  \<^verbatim>\<open>decode_object(name, val)\<close> builds \<^verbatim>\<open>obj\<close> while it pops the children off the front of
  \<^verbatim>\<open>val\<close>. A statement of a rule takes and returns the pair of the dictionary under
  construction and the children that are left.
\<close>

type_synonym rule_state = "(pyval \<times> pyval) list \<times> pyval list"

type_synonym rule = "pyval list \<Rightarrow> error + pyval \<times> pyval list"

fun do_stmts :: "(rule_state \<Rightarrow> error + rule_state) list \<Rightarrow> rule_state \<Rightarrow> error + rule_state" where
  "do_stmts [] s = Inr s"
| "do_stmts (f # fs) s = andthen (f s) (do_stmts fs)"

text \<open>
  A rule that fills \<^verbatim>\<open>obj = collections.OrderedDict()\<close> by a sequence of statements.
\<close>

definition dict_rule :: "(rule_state \<Rightarrow> error + rule_state) list \<Rightarrow> rule" where
  "dict_rule stmts val =
     andthen (do_stmts stmts ([], val)) (\<lambda>(obj, val'). Inr (PyDict obj, val'))"

text \<open>\<^verbatim>\<open>obj[key] = f(val.pop(0))\<close>\<close>

definition set_field ::
  "string \<Rightarrow> (pyval \<Rightarrow> error + pyval) \<Rightarrow> rule_state \<Rightarrow> error + rule_state" where
  "set_field key f s =
     (case s of (obj, val) \<Rightarrow>
        andthen (pop0 val) (\<lambda>(x, val').
        andthen (f x) (\<lambda>y.
        Inr (dict_set obj (PyStr key) y, val'))))"

text \<open>\<^verbatim>\<open>obj[key] = val.pop(0)\<close>\<close>

definition pop_field :: "string \<Rightarrow> rule_state \<Rightarrow> error + rule_state" where
  "pop_field key = set_field key Inr"

text \<open>\<^verbatim>\<open>obj[key] = self.decode_position(val.pop(0))\<close>\<close>

definition position_field :: "string \<Rightarrow> rule_state \<Rightarrow> error + rule_state" where
  "position_field key = set_field key (\<lambda>x. Inr (decode_position x))"

text \<open>
  \<^verbatim>\<open>if len(val): obj[key] = val.pop(0)\<close>
\<close>

definition optional_field :: "string \<Rightarrow> rule_state \<Rightarrow> error + rule_state" where
  "optional_field key s = (case s of (obj, val) \<Rightarrow> if val \<noteq> [] then pop_field key s else Inr s)"

text \<open>
  \<^verbatim>\<open>[f(val.pop(0)) for _ in range(val.pop(0))]\<close>: the count is popped first, then one
  child for each iteration.
\<close>

fun pop_n :: "(pyval \<Rightarrow> error + pyval) \<Rightarrow> nat \<Rightarrow> pyval list \<Rightarrow> error + pyval list \<times> pyval list" where
  "pop_n f 0 val = Inr ([], val)"
| "pop_n f (Suc n) val =
     andthen (pop0 val) (\<lambda>(x, val').
     andthen (f x) (\<lambda>y.
     andthen (pop_n f n val') (\<lambda>(ys, val'').
     Inr (y # ys, val''))))"

definition pop_list :: "(pyval \<Rightarrow> error + pyval) \<Rightarrow> pyval list \<Rightarrow> error + pyval list \<times> pyval list" where
  "pop_list f val =
     andthen (pop0 val) (\<lambda>(cnt, val').
     andthen (py_range cnt) (\<lambda>n.
     pop_n f n val'))"

text \<open>\<^verbatim>\<open>obj = [f(val.pop(0)) for _ in range(val.pop(0))]\<close>\<close>

definition list_rule :: "(pyval \<Rightarrow> error + pyval) \<Rightarrow> rule" where
  "list_rule f val = andthen (pop_list f val) (\<lambda>(xs, val'). Inr (PyList xs, val'))"

text \<open>\<^verbatim>\<open>obj[key] = [f(val.pop(0)) for _ in range(val.pop(0))]\<close>\<close>

definition list_field ::
  "string \<Rightarrow> (pyval \<Rightarrow> error + pyval) \<Rightarrow> rule_state \<Rightarrow> error + rule_state" where
  "list_field key f s =
     (case s of (obj, val) \<Rightarrow>
        andthen (pop_list f val) (\<lambda>(xs, val').
        Inr (dict_set obj (PyStr key) (PyList xs), val')))"

text \<open>\<^verbatim>\<open>obj = val.pop(0)\<close>\<close>

definition single_value :: rule where
  "single_value val = pop0 val"

text \<open>
  \<^verbatim>\<open>for _ in range(val.pop(0)): k = val.pop(0); obj[k] = val.pop(0)\<close>
\<close>

fun key_value_pairs :: "nat \<Rightarrow> rule_state \<Rightarrow> error + rule_state" where
  "key_value_pairs 0 s = Inr s"
| "key_value_pairs (Suc n) (obj, val) =
     andthen (pop0 val) (\<lambda>(k, val').
     andthen (pop0 val') (\<lambda>(v, val'').
     andthen (setitem obj k v) (\<lambda>obj'.
     key_value_pairs n (obj', val''))))"

definition key_value_map :: "rule_state \<Rightarrow> error + rule_state" where
  "key_value_map s =
     (case s of (obj, val) \<Rightarrow>
        andthen (pop0 val) (\<lambda>(cnt, val').
        andthen (py_range cnt) (\<lambda>n.
        key_value_pairs n (obj, val'))))"

text \<open>\<^verbatim>\<open>obj = self.decode_position(val.pop(0))\<close>\<close>

definition erl_rule :: rule where
  "erl_rule val = andthen (pop0 val) (\<lambda>(x, val'). Inr (decode_position x, val'))"

text \<open>The time of a record: the ISO timestamp, or \<^verbatim>\<open>None\<close> for the sentinel.\<close>

definition time_field :: "clock \<Rightarrow> string \<Rightarrow> rule_state \<Rightarrow> error + rule_state" where
  "time_field clock key = set_field key (unless_sentinel (isoformat_millis clock))"

text \<open>
  The structure \<^verbatim>\<open>lpr\<close>: the first child is the position itself when it is a string, and
  a version otherwise.
\<close>

definition lpr_stmt :: "clock \<Rightarrow> rule_state \<Rightarrow> error + rule_state" where
  "lpr_stmt clock s =
     (case s of (obj, val) \<Rightarrow>
        andthen (pop0 val) (\<lambda>(version, val').
          case version of
            PyStr _ \<Rightarrow> Inr (dict_set obj (PyStr ''position'') (decode_position version), val')
          | _ \<Rightarrow>
              andthen (py_le_int version 2) (\<lambda>le.
                if le then
                  do_stmts [position_field ''position'', time_field clock ''time''] (obj, val')
                else Inl (raise_d UnknownLprVersion version))))"

text \<open>The structures \<^verbatim>\<open>fpr\<close> and \<^verbatim>\<open>updated_lpr\<close>.\<close>

definition fpr_stmts :: "clock \<Rightarrow> (rule_state \<Rightarrow> error + rule_state) list" where
  "fpr_stmts clock =
     [position_field ''position'',
      time_field clock ''time'',
      set_field ''timeZoneOffset'' (unless_sentinel Inr),
      pop_field ''country'',
      pop_field ''device'']"

text \<open>\<^verbatim>\<open>ANNOT_CLASS_NAMES\<close>\<close>

definition ANNOT_CLASS_NAMES :: "(pyval \<times> string) list" where
  "ANNOT_CLASS_NAMES =
     [(PyInt 0, ''annotation.personal.bookmark''),
      (PyInt 1, ''annotation.personal.highlight''),
      (PyInt 2, ''annotation.personal.note''),
      (PyInt 3, ''annotation.personal.clip_article''),
      (PyInt 10, ''annotation.personal.handwritten_note''),
      (PyInt 11, ''annotation.personal.sticky_note'')]"

text \<open>
  One annotation of an interval tree: it must be a collection of length 1 that holds the
  class name, and it is replaced by what it holds under that name.
\<close>

definition unwrap_annotation :: "string \<Rightarrow> pyval \<Rightarrow> error + pyval" where
  "unwrap_annotation annot_class_name annotation =
     andthen (py_len annotation) (\<lambda>n.
       if n \<noteq> 1 then Inl (UnknownAnnotationFormat annotation)
       else andthen (py_contains_str annot_class_name annotation) (\<lambda>present.
         if \<not> present then Inl (UnknownAnnotationFormat annotation)
         else py_getitem_str annot_class_name annotation))"

fun unwrap_annotations :: "string \<Rightarrow> pyval list \<Rightarrow> error + pyval list" where
  "unwrap_annotations annot_class_name [] = Inr []"
| "unwrap_annotations annot_class_name (annotation # rest) =
     andthen (unwrap_annotation annot_class_name annotation) (\<lambda>a.
     andthen (unwrap_annotations annot_class_name rest) (\<lambda>as.
     Inr (a # as)))"

text \<open>The body of the loop of \<^verbatim>\<open>annotation.cache.object\<close>.\<close>

definition annotation_group :: "rule_state \<Rightarrow> error + rule_state" where
  "annotation_group s =
     (case s of (obj, val) \<Rightarrow>
        andthen (pop0 val) (\<lambda>(annotation_type, val').
          if \<not> hashable annotation_type then Inl TypeError
          else case dict_get ANNOT_CLASS_NAMES annotation_type of
            None \<Rightarrow> Inl (raise_d UnknownAnnotationType annotation_type)
          | Some annot_class_name \<Rightarrow>
              andthen (pop0 val') (\<lambda>(tree, val'').
              andthen (py_getitem_str ''saved.avl.interval.tree'' tree) (\<lambda>entries.
              andthen (py_iter entries) (\<lambda>annotations.
              andthen (unwrap_annotations annot_class_name annotations) (\<lambda>unwrapped.
              Inr (dict_set obj (PyStr annot_class_name) (PyList unwrapped), val'')))))))"

fun annotation_groups :: "nat \<Rightarrow> rule_state \<Rightarrow> error + rule_state" where
  "annotation_groups 0 s = Inr s"
| "annotation_groups (Suc n) s = andthen (annotation_group s) (annotation_groups n)"

definition annotation_cache :: "rule_state \<Rightarrow> error + rule_state" where
  "annotation_cache s =
     (case s of (obj, val) \<Rightarrow>
        andthen (pop0 val) (\<lambda>(cnt, val').
        andthen (py_range cnt) (\<lambda>n.
        annotation_groups n (obj, val'))))"

text \<open>
  An annotation of one of the classes of \<^verbatim>\<open>ANNOT_CLASS_NAMES\<close>. Its two times have no
  sentinel.
\<close>

definition annotation_stmts :: "clock \<Rightarrow> string \<Rightarrow> (rule_state \<Rightarrow> error + rule_state) list" where
  "annotation_stmts clock name =
     [position_field ''startPosition'',
      position_field ''endPosition'',
      set_field ''creationTime'' (isoformat_millis clock),
      set_field ''lastModificationTime'' (isoformat_millis clock),
      pop_field ''template'']
     @ (if name = ''annotation.personal.note'' then [pop_field ''note'']
        else if name = ''annotation.personal.handwritten_note'' then [pop_field ''handwritten_note_nbk_ref'']
        else if name = ''annotation.personal.sticky_note'' then [pop_field ''sticky_note_nbk_ref'']
        else [])"

text \<open>\<^verbatim>\<open>val.pop(0)[key]\<close> as the element of a list.\<close>

definition member_of :: "string \<Rightarrow> pyval \<Rightarrow> error + pyval" where
  "member_of key x = py_getitem_str key x"

text \<open>
  The chain of \<^verbatim>\<open>if\<close> and \<^verbatim>\<open>elif\<close> of \<^verbatim>\<open>decode_object\<close>, in the order of the source: the
  rule of a name, and \<open>None\<close> for a name that reaches the final \<^verbatim>\<open>else\<close>.
\<close>

definition structure_rule :: "clock \<Rightarrow> string \<Rightarrow> rule option" where
  "structure_rule clock name =
    (if name \<in> {''clock.data.store'', ''dictionary'', ''lpu'', ''pdf.contrast'', ''sync_lpr'',
                 ''tpz.line.spacing'', ''XRAY_OTA_UPDATE_STATE'', ''XRAY_SHOWING_SPOILERS'',
                 ''XRAY_SORTING_STATE'', ''XRAY_TAB_STATE''}
       then Some single_value
     else if name \<in> {''dict.prefs.v2'', ''EndActions'', ''ReaderMetrics'', ''StartActions'',
                      ''Translator'', ''Wikipedia''}
       then Some (dict_rule [key_value_map])
     else if name \<in> {''buy.asin.response.data'', ''next.in.series.info.data'', ''price.info.data''}
       then Some single_value
     else if name = ''erl''
       then Some erl_rule
     else if name \<in> {''lpr''}
       then Some (dict_rule [lpr_stmt clock])
     else if name \<in> {''fpr'', ''updated_lpr''}
       then Some (dict_rule (fpr_stmts clock))
     else if name = ''annotation.cache.object''
       then Some (dict_rule [annotation_cache])
     else if name = ''saved.avl.interval.tree''
       then Some (list_rule Inr)
     else if name \<in> snd ` set ANNOT_CLASS_NAMES
       then Some (dict_rule (annotation_stmts clock name))
     else if name = ''apnx.key''
       then Some (dict_rule
         [pop_field ''asin'',
          pop_field ''cdeType'',
          pop_field ''sidecarAvailable'',
          list_field ''oPNToPosition'' Inr,
          pop_field ''first'',
          pop_field ''unknown1'',
          pop_field ''unknown2'',
          pop_field ''pageMap''])
     else if name = ''fixed.layout.data''
       then Some (dict_rule [pop_field ''unknown1'', pop_field ''unknown2'', pop_field ''unknown3''])
     else if name = ''sharing.limits''
       then Some (dict_rule [pop_field ''accumulated''])
     else if name = ''language.store''
       then Some (dict_rule [pop_field ''language'', pop_field ''unknown1''])
     else if name = ''periodicals.view.state''
       then Some (dict_rule [pop_field ''unknown1'', pop_field ''unknown2''])
     else if name = ''font.prefs''
       then Some (dict_rule
         [pop_field ''typeface'',
          pop_field ''lineSp'',
          pop_field ''size'',
          pop_field ''align'',
          pop_field ''insetTop'',
          pop_field ''insetLeft'',
          pop_field ''insetBottom'',
          pop_field ''insetRight'',
          pop_field ''unknown1'',
          optional_field ''bold'',
          optional_field ''userSideloadableFont'',
          optional_field ''customFontIndex'',
          optional_field ''mobi7SystemFont'',
          optional_field ''mobi7RestoreFont'',
          optional_field ''readingPresetSelected'',
          optional_field ''unknown2''])
     else if name = ''purchase.state.data''
       then Some (dict_rule [pop_field ''state'', set_field ''time'' (isoformat_millis clock)])
     else if name = ''timer.data.store''
       then Some (dict_rule [pop_field ''on'', pop_field ''readingTimerModel'', pop_field ''version''])
     else if name = ''timer.data.store.v2''
       then Some (dict_rule
         [pop_field ''on'', pop_field ''readingTimerModel'', pop_field ''version'',
          pop_field ''lastOption''])
     else if name = ''timer.model''
       then Some (dict_rule
         [pop_field ''version'',
          pop_field ''totalTime'',
          pop_field ''totalWords'',
          pop_field ''totalPercent'',
          set_field ''averageCalculator'' (member_of ''timer.average.calculator'')])
     else if name = ''timer.average.calculator''
       then Some (dict_rule
         [list_field ''samples1'' Inr,
          list_field ''samples2'' Inr,
          list_field ''normalDistributions'' (member_of ''timer.average.calculator.distribution.normal''),
          list_field ''outliers'' (member_of ''timer.average.calculator.outliers'')])
     else if name = ''timer.average.calculator.distribution.normal''
       then Some (dict_rule [pop_field ''count'', pop_field ''sum'', pop_field ''sumOfSquares''])
     else if name = ''timer.average.calculator.outliers''
       then Some (list_rule Inr)
     else if name = ''book.info.store''
       then Some (dict_rule [pop_field ''numberOfWords'', pop_field ''percentOfBook''])
     else if name = ''page.history.store''
       then Some (list_rule (member_of ''page.history.record''))
     else if name = ''page.history.record''
       then Some (dict_rule [position_field ''position'', set_field ''time'' (isoformat_millis clock)])
     else if name = ''reader.state.preferences''
       then Some (dict_rule
         [pop_field ''fontPreferences'',
          pop_field ''leftMargin'',
          pop_field ''rightMargin'',
          pop_field ''topMargin'',
          pop_field ''bottomMargin'',
          pop_field ''unknown1''])
     else None)"

text \<open>What \<^verbatim>\<open>self.log\<close> receives.\<close>

datatype log_record =
    Info_decode_failed int
      \<comment> \<open>"KindleReaderDataStore decode failed at offset %d"\<close>
  | Info_partial_value "(pyval \<times> pyval) list"
      \<comment> \<open>"partial value = %s"\<close>
  | Error_extra_data int
      \<comment> \<open>"KindleReaderDataStore has %d bytes of extra data"\<close>
  | Error_unknown_structure string
      \<comment> \<open>"Unknown data structure %s"\<close>

text \<open>
  \<^verbatim>\<open>KindleReaderDataStore.decode_object\<close>. A known name runs its rule; the final
  \<^verbatim>\<open>else\<close> logs the name, takes all the children as the object and empties \<^verbatim>\<open>val\<close>.
  Then whatever is left in \<^verbatim>\<open>val\<close> is an error.
\<close>

definition decode_object ::
  "clock \<Rightarrow> string \<Rightarrow> pyval list \<Rightarrow> log_record list \<Rightarrow> (error + pyval) \<times> log_record list" where
  "decode_object clock name val lg =
     (let (extracted, lg') =
            (case structure_rule clock name of
               Some rule \<Rightarrow> (rule val, lg)
             | None \<Rightarrow> (Inr (PyList val, []), lg @ [Error_unknown_structure name]))
      in case extracted of
           Inl e \<Rightarrow> (Inl e, lg')
         | Inr (obj, val') \<Rightarrow>
             if val' \<noteq> [] then (Inl (ExcessValues name val'), lg')
             else (Inr (PyDict [(PyStr name, obj)]), lg'))"

text \<open>
  The names that the chain of \<^verbatim>\<open>decode_object\<close> tests for, in the order of the source.
\<close>

definition known_structures :: "string list" where
  "known_structures =
     [''clock.data.store'', ''dictionary'', ''lpu'', ''pdf.contrast'', ''sync_lpr'',
      ''tpz.line.spacing'', ''XRAY_OTA_UPDATE_STATE'', ''XRAY_SHOWING_SPOILERS'',
      ''XRAY_SORTING_STATE'', ''XRAY_TAB_STATE'',
      ''dict.prefs.v2'', ''EndActions'', ''ReaderMetrics'', ''StartActions'', ''Translator'',
      ''Wikipedia'',
      ''buy.asin.response.data'', ''next.in.series.info.data'', ''price.info.data'',
      ''erl'', ''lpr'', ''fpr'', ''updated_lpr'',
      ''annotation.cache.object'', ''saved.avl.interval.tree'',
      ''annotation.personal.bookmark'', ''annotation.personal.highlight'',
      ''annotation.personal.note'', ''annotation.personal.clip_article'',
      ''annotation.personal.handwritten_note'', ''annotation.personal.sticky_note'',
      ''apnx.key'', ''fixed.layout.data'', ''sharing.limits'', ''language.store'',
      ''periodicals.view.state'', ''font.prefs'', ''purchase.state.data'',
      ''timer.data.store'', ''timer.data.store.v2'', ''timer.model'',
      ''timer.average.calculator'', ''timer.average.calculator.distribution.normal'',
      ''timer.average.calculator.outliers'', ''book.info.store'', ''page.history.store'',
      ''page.history.record'', ''reader.state.preferences'']"

text \<open>A clock for the examples: every instant is printed as the same date.\<close>

definition fixed_clock :: clock where
  "fixed_clock t = Inr ''2021-01-01T00:00:00''"

text \<open>
  A clock with the limit of \<^verbatim>\<open>datetime\<close>. The largest year of a \<^verbatim>\<open>datetime\<close> is 9999
  (\<^verbatim>\<open>datetime.MAXYEAR\<close>), and \<^verbatim>\<open>datetime.fromtimestamp\<close> raises \<^verbatim>\<open>ValueError\<close>
  (\<^verbatim>\<open>year ... is out of range\<close>) for an instant of a later year. The second 253402387200 is
  one day after the end of the year 9999 in UTC, so it is past that year in every time
  zone. An integer of milliseconds from that second up to the largest 64-bit integer, the
  largest that a file can carry, gets \<^verbatim>\<open>ValueError\<close>; any other instant is printed as by
  \<open>fixed_clock\<close>.
\<close>

definition year_limit_clock :: clock where
  "year_limit_clock t =
     (case t of
        PyInt ms \<Rightarrow>
          if 253402387200000 \<le> ms \<and> ms \<le> 9223372036854775807 then Inl ValueError
          else fixed_clock t
      | _ \<Rightarrow> fixed_clock t)"

text \<open>
  The children that encode a list of (key, value) pairs with string keys, in the order
  in which a key/value map reads them.
\<close>

definition pair_children :: "(string \<times> pyval) list \<Rightarrow> pyval list" where
  "pair_children pairs = concat (map (\<lambda>(k, v). [PyStr k, v]) pairs)"

text \<open>
  The keys of \<^verbatim>\<open>font.prefs\<close> in the order of the source: nine that are always read, then
  seven that are read while children remain.
\<close>

definition font_prefs_required :: "string list" where
  "font_prefs_required =
     [''typeface'', ''lineSp'', ''size'', ''align'', ''insetTop'', ''insetLeft'',
      ''insetBottom'', ''insetRight'', ''unknown1'']"

definition font_prefs_optional :: "string list" where
  "font_prefs_optional =
     [''bold'', ''userSideloadableFont'', ''customFontIndex'', ''mobi7SystemFont'',
      ''mobi7RestoreFont'', ''readingPresetSelected'', ''unknown2'']"

section \<open>decode\_next: one tagged value\<close>

text \<open>
  \<^verbatim>\<open>bytes.decode("utf-8")\<close> accepts exactly the well-formed UTF-8 sequences: no overlong
  form, no surrogate, nothing above U+10FFFF.
\<close>

definition continuation :: "nat \<Rightarrow> bool" where
  "continuation b = (128 \<le> b \<and> b \<le> 191)"

fun utf8_valid :: "nat list \<Rightarrow> bool" where
  "utf8_valid [] = True"
| "utf8_valid (b0 # bs) =
     (if b0 < 128 then utf8_valid bs
      else if 194 \<le> b0 \<and> b0 \<le> 223 then
        (case bs of
           b1 # r \<Rightarrow> continuation b1 \<and> utf8_valid r
         | _ \<Rightarrow> False)
      else if 224 \<le> b0 \<and> b0 \<le> 239 then
        (case bs of
           b1 # b2 # r \<Rightarrow>
             (if b0 = 224 then 160 \<le> b1 \<and> b1 \<le> 191
              else if b0 = 237 then 128 \<le> b1 \<and> b1 \<le> 159
              else continuation b1)
             \<and> continuation b2 \<and> utf8_valid r
         | _ \<Rightarrow> False)
      else if 240 \<le> b0 \<and> b0 \<le> 244 then
        (case bs of
           b1 # b2 # b3 # r \<Rightarrow>
             (if b0 = 240 then 144 \<le> b1 \<and> b1 \<le> 191
              else if b0 = 244 then 128 \<le> b1 \<and> b1 \<le> 143
              else continuation b1)
             \<and> continuation b2 \<and> continuation b3 \<and> utf8_valid r
         | _ \<Rightarrow> False)
      else False)"

definition decode_utf8 :: "byte list \<Rightarrow> error + pyval" where
  "decode_utf8 bs =
     (if utf8_valid (map unat bs) then Inr (PyStr (map (\<lambda>b. char_of (unat b)) bs))
      else Inl UnicodeDecodeError)"

text \<open>\<^verbatim>\<open>v.decode("utf-8")\<close>: only \<^verbatim>\<open>bytes\<close> has the method.\<close>

fun py_decode :: "pyval \<Rightarrow> error + pyval" where
  "py_decode (PyBytes bs) = decode_utf8 bs"
| "py_decode _ = Inl AttributeError"

text \<open>The truth value of \<^verbatim>\<open>if v:\<close>\<close>

fun truthy :: "pyval \<Rightarrow> bool" where
  "truthy PyNone = False"
| "truthy (PyBool b) = b"
| "truthy (PyInt i) = (i \<noteq> 0)"
| "truthy (PyFloat f) = (case f of FFin _ m _ \<Rightarrow> m \<noteq> 0 | _ \<Rightarrow> True)"
| "truthy (PyStr s) = (s \<noteq> [])"
| "truthy (PyBytes bs) = (bs \<noteq> [])"
| "truthy (PyList xs) = (xs \<noteq> [])"
| "truthy (PyDict kvs) = (kvs \<noteq> [])"

text \<open>
  The object of class \<^verbatim>\<open>KindleReaderDataStore\<close>. \<^verbatim>\<open>krds\<close> is \<^verbatim>\<open>None\<close> until
  \<^verbatim>\<open>deserialize\<close> assigns the cursor to it, and nothing reads it before; the record holds
  a cursor from the start. \<^verbatim>\<open>log\<close> is the list of the records that were logged.
\<close>

record KindleReaderDataStore =
  krds :: Deserializer
  log :: "log_record list"
  data :: "byte list"

definition KindleReaderDataStore_init :: "log_record list \<Rightarrow> byte list \<Rightarrow> KindleReaderDataStore" where
  "KindleReaderDataStore_init lg dat = \<lparr>krds = Deserializer_init dat, log = lg, data = dat\<rparr>"

type_synonym 'a result = "(error + 'a) \<times> KindleReaderDataStore"

text \<open>\<^verbatim>\<open>self.krds.unpack(fmt, advance)\<close>\<close>

definition krds_unpack :: "fmt \<Rightarrow> bool \<Rightarrow> KindleReaderDataStore \<Rightarrow> pyval result" where
  "krds_unpack f advance s = (case unpack f advance (krds s) of (r, d) \<Rightarrow> (r, s\<lparr>krds := d\<rparr>))"

text \<open>
  \<^verbatim>\<open>self.krds.extract(size)\<close> for a value \<open>size\<close>: the slice takes an integer (or
  \<^verbatim>\<open>None\<close>, the default) and raises \<^verbatim>\<open>TypeError\<close> on anything else.
\<close>

fun size_argument :: "pyval \<Rightarrow> error + int option" where
  "size_argument PyNone = Inr None"
| "size_argument (PyInt n) = Inr (Some n)"
| "size_argument (PyBool b) = Inr (Some (if b then 1 else 0))"
| "size_argument _ = Inl TypeError"

definition krds_extract :: "pyval \<Rightarrow> KindleReaderDataStore \<Rightarrow> pyval result" where
  "krds_extract size_arg s =
     (case size_argument size_arg of
        Inl e \<Rightarrow> (Inl e, s)
      | Inr sz \<Rightarrow>
          (case extract_data sz None True (krds s) of
             (Inl e, d) \<Rightarrow> (Inl e, s\<lparr>krds := d\<rparr>)
           | (Inr bs, d) \<Rightarrow> (Inr (PyBytes bs), s\<lparr>krds := d\<rparr>)))"

text \<open>\<^verbatim>\<open>self.decode_object(name, val)\<close> on the object.\<close>

definition krds_decode_object ::
  "clock \<Rightarrow> pyval \<Rightarrow> pyval list \<Rightarrow> KindleReaderDataStore \<Rightarrow> pyval result" where
  "krds_decode_object clock name val s =
     (case name of
        PyStr n \<Rightarrow> (case decode_object clock n val (log s) of (r, lg) \<Rightarrow> (r, s\<lparr>log := lg\<rparr>))
      | _ \<Rightarrow> (Inl TypeError, s))"

text \<open>The rest of the branch \<^verbatim>\<open>DATATYPE_BOOLEAN\<close>, after the byte is read.\<close>

definition boolean_of :: "pyval \<Rightarrow> error + pyval" where
  "boolean_of b =
     (if py_eq_int b 0 then Inr (PyBool False)
      else if py_eq_int b 1 then Inr (PyBool True)
      else Inl (UnknownBoolean b))"

text \<open>Applying a pure step to the result of a step on the object.\<close>

definition on_result :: "(pyval \<Rightarrow> error + pyval) \<Rightarrow> pyval result \<Rightarrow> pyval result" where
  "on_result f r = (case r of (Inl e, s) \<Rightarrow> (Inl e, s) | (Inr v, s) \<Rightarrow> (f v, s))"

text \<open>
  \<^verbatim>\<open>self.krds.extract(self.krds.unpack(">H")).decode("utf-8")\<close>
\<close>

definition utf_payload :: "KindleReaderDataStore \<Rightarrow> pyval result" where
  "utf_payload s =
     (case krds_unpack Fmt_H True s of
        (Inl e, s1) \<Rightarrow> (Inl e, s1)
      | (Inr n, s1) \<Rightarrow> on_result py_decode (krds_extract n s1))"

text \<open>
  \<^verbatim>\<open>KindleReaderDataStore.decode_next\<close>, with the \<^verbatim>\<open>while\<close> loop of the branch
  \<^verbatim>\<open>DATATYPE_OBJECT_BEGIN\<close> as \<open>decode_children\<close>. The argument \<^verbatim>\<open>datatype\<close> is \<open>None\<close>
  when the tag is to be read from the buffer.
\<close>

function decode_next :: "clock \<Rightarrow> pyval option \<Rightarrow> KindleReaderDataStore \<Rightarrow> pyval result"
  and decode_children :: "clock \<Rightarrow> pyval list \<Rightarrow> KindleReaderDataStore \<Rightarrow> (pyval list) result"
where
  "decode_next clock datatype_arg s =
     (case (case datatype_arg of None \<Rightarrow> krds_unpack Fmt_b True s | Some t \<Rightarrow> (Inr t, s)) of
        (Inl e, s1) \<Rightarrow> (Inl e, s1)
      | (Inr dt, s1) \<Rightarrow>
          if py_eq_int dt 0 then on_result boolean_of (krds_unpack Fmt_b True s1)
          else if py_eq_int dt 1 then krds_unpack Fmt_l True s1
          else if py_eq_int dt 2 then krds_unpack Fmt_q True s1
          else if py_eq_int dt 3 then
            (case decode_next clock (Some (PyInt 0)) s1 of
               (Inl e, s2) \<Rightarrow> (Inl e, s2)
             | (Inr flag, s2) \<Rightarrow> if truthy flag then (Inr (PyStr ''''), s2) else utf_payload s2)
          else if py_eq_int dt 4 then krds_unpack Fmt_d True s1
          else if py_eq_int dt 5 then krds_unpack Fmt_h True s1
          else if py_eq_int dt 6 then krds_unpack Fmt_f True s1
          else if py_eq_int dt 7 then krds_unpack Fmt_b True s1
          else if py_eq_int dt 9 then on_result py_decode (krds_unpack Fmt_c True s1)
          else if py_eq_int dt (- 2) then
            (case decode_next clock (Some (PyInt 3)) s1 of
               (Inl e, s2) \<Rightarrow> (Inl e, s2)
             | (Inr name, s2) \<Rightarrow>
                 (case decode_children clock [] s2 of
                    (Inl e, s3) \<Rightarrow> (Inl e, s3)
                  | (Inr val, s3) \<Rightarrow>
                      (case krds_unpack Fmt_b True s3 of
                         (Inl e, s4) \<Rightarrow> (Inl e, s4)
                       | (Inr end_tag, s4) \<Rightarrow> krds_decode_object clock name val s4)))
          else (Inl (UnknownDatatype dt), s1))"
| "decode_children clock val s =
     (case krds_unpack Fmt_b False s of
        (Inl e, s1) \<Rightarrow> (Inl e, s1)
      | (Inr tag, s1) \<Rightarrow>
          if \<not> py_eq_int tag (- 1) then
            (case decode_next clock None s1 of
               (Inl e, s2) \<Rightarrow> (Inl e, s2)
             | (Inr v, s2) \<Rightarrow> decode_children clock (val @ [v]) s2)
          else (Inr val, s1))"
  by pat_completeness auto

subsection \<open>Termination\<close>

text \<open>
  Every call of \<^verbatim>\<open>decode_next\<close> that reads its tag consumes a byte, and no call moves
  the cursor back: the number of bytes left bounds the recursion.
\<close>

definition remaining :: "KindleReaderDataStore \<Rightarrow> nat" where
  "remaining s = nat (int (length (buffer (krds s))) - offset (krds s))"

lemma unpack_cases:
  "unpack f adv d = (Inl StructError, d) \<or>
   (\<exists>v. unpack f adv d = (Inr v, if adv then d\<lparr>offset := offset d + int (calcsize f)\<rparr> else d)
        \<and> offset d < int (length (buffer d)))"
  by (cases f) (auto simp: unpack_def unpack_from_def Let_def)

lemma krds_unpack_remaining_le [simp]: "remaining (snd (krds_unpack f adv s)) \<le> remaining s"
  using unpack_cases [of f adv "krds s"]
  by (auto simp: krds_unpack_def remaining_def)

lemma krds_unpack_remaining_less:
  "krds_unpack f True s = (Inr v, s') \<Longrightarrow> remaining s' < remaining s"
  using unpack_cases [of f True "krds s"]
  by (cases f) (auto simp: krds_unpack_def remaining_def)

lemma krds_unpack_peek: "krds_unpack f False s = (r, s') \<Longrightarrow> s' = s"
  using unpack_cases [of f False "krds s"]
  by (auto simp: krds_unpack_def)

lemma snd_on_result [simp]: "snd (on_result f r) = snd r"
  by (simp add: on_result_def split: prod.splits sum.splits)

lemma extract_data_offset:
  "offset (snd (extract_data sz up adv d)) \<ge> offset d \<and> buffer (snd (extract_data sz up adv d)) = buffer d"
  by (simp add: extract_data_def Let_def)

lemma krds_extract_remaining_le [simp]: "remaining (snd (krds_extract n s)) \<le> remaining s"
proof (cases "size_argument n")
  case (Inl e)
  then show ?thesis by (simp add: krds_extract_def)
next
  case (Inr sz)
  obtain r d where e: "extract_data sz None True (krds s) = (r, d)" by (cases "extract_data sz None True (krds s)")
  have "offset d \<ge> offset (krds s) \<and> buffer d = buffer (krds s)"
    using extract_data_offset [of "krds s" sz None True] e by simp
  then show ?thesis
    using Inr e by (cases r) (auto simp: krds_extract_def remaining_def)
qed

lemma utf_payload_remaining_le [simp]: "remaining (snd (utf_payload s)) \<le> remaining s"
proof (cases "krds_unpack Fmt_H True s")
  case (Pair r s1)
  have a: "remaining s1 \<le> remaining s"
    using krds_unpack_remaining_le [of Fmt_H True s] Pair by simp
  show ?thesis
  proof (cases r)
    case (Inl e)
    then show ?thesis using Pair a by (simp add: utf_payload_def)
  next
    case (Inr n)
    have "remaining (snd (krds_extract n s1)) \<le> remaining s1" by simp
    then have "remaining (snd (krds_extract n s1)) \<le> remaining s" using a by (rule order_trans)
    then show ?thesis using Pair Inr by (simp add: utf_payload_def)
  qed
qed

lemma krds_decode_object_remaining [simp]:
  "remaining (snd (krds_decode_object clock name val s)) = remaining s"
  by (simp add: krds_decode_object_def remaining_def split: pyval.splits prod.splits)

lemma decode_dom_remaining:
  "decode_next_decode_children_dom (Inl (clock, dta, s)) \<Longrightarrow>
     remaining (snd (decode_next clock dta s)) \<le> remaining s \<and>
     (dta = None \<longrightarrow> isl (fst (decode_next clock dta s)) \<or> remaining (snd (decode_next clock dta s)) < remaining s)"
  "decode_next_decode_children_dom (Inr (clock, val, s)) \<Longrightarrow>
     remaining (snd (decode_children clock val s)) \<le> remaining s"
proof (induct rule: decode_next_decode_children.pinduct)
  case (1 clock dta s)
  obtain x y where xy: "(x, y) = (case dta of None \<Rightarrow> krds_unpack Fmt_b True s | Some t \<Rightarrow> (Inr t, s))"
    by (metis prod.collapse)
  have y_le: "remaining y \<le> remaining s"
    using xy krds_unpack_remaining_le [of Fmt_b True s] by (cases dta) (auto simp: snd_def split: prod.splits)
  have y_less: "dta = None \<Longrightarrow> \<not> isl x \<Longrightarrow> remaining y < remaining s"
    using xy [symmetric] krds_unpack_remaining_less [of Fmt_b s] by (cases x) auto
  show ?case
  proof (cases x)
    case (Inl e)
    then have "decode_next clock dta s = (Inl e, y)"
      by (simp add: decode_next.psimps [OF 1(1)] xy [symmetric])
    then show ?thesis using y_le by auto
  next
    case (Inr b)
    note IH1 = 1(2) [OF xy Inr]
    note IH2 = 1(3) [OF xy Inr]
    note IH3 = 1(4) [OF xy Inr]
    have eq: "decode_next clock dta s =
       (if py_eq_int b 0 then on_result boolean_of (krds_unpack Fmt_b True y)
          else if py_eq_int b 1 then krds_unpack Fmt_l True y
          else if py_eq_int b 2 then krds_unpack Fmt_q True y
          else if py_eq_int b 3 then
            (case decode_next clock (Some (PyInt 0)) y of
               (Inl e, s2) \<Rightarrow> (Inl e, s2)
             | (Inr flag, s2) \<Rightarrow> if truthy flag then (Inr (PyStr ''''), s2) else utf_payload s2)
          else if py_eq_int b 4 then krds_unpack Fmt_d True y
          else if py_eq_int b 5 then krds_unpack Fmt_h True y
          else if py_eq_int b 6 then krds_unpack Fmt_f True y
          else if py_eq_int b 7 then krds_unpack Fmt_b True y
          else if py_eq_int b 9 then on_result py_decode (krds_unpack Fmt_c True y)
          else if py_eq_int b (- 2) then
            (case decode_next clock (Some (PyInt 3)) y of
               (Inl e, s2) \<Rightarrow> (Inl e, s2)
             | (Inr name, s2) \<Rightarrow>
                 (case decode_children clock [] s2 of
                    (Inl e, s3) \<Rightarrow> (Inl e, s3)
                  | (Inr val, s3) \<Rightarrow>
                      (case krds_unpack Fmt_b True s3 of
                         (Inl e, s4) \<Rightarrow> (Inl e, s4)
                       | (Inr end_tag, s4) \<Rightarrow> krds_decode_object clock name val s4)))
          else (Inl (UnknownDatatype b), y))"
      by (simp add: decode_next.psimps [OF 1(1)] xy [symmetric] Inr)
    have le: "remaining (snd (decode_next clock dta s)) \<le> remaining y"
    proof -
      consider (utf) "\<not> py_eq_int b 0" "\<not> py_eq_int b 1" "\<not> py_eq_int b 2" "py_eq_int b 3"
        | (obj) "\<not> py_eq_int b 0" "\<not> py_eq_int b 1" "\<not> py_eq_int b 2" "\<not> py_eq_int b 3"
            "\<not> py_eq_int b 4" "\<not> py_eq_int b 5" "\<not> py_eq_int b 6" "\<not> py_eq_int b 7"
            "\<not> py_eq_int b 9" "py_eq_int b (- 2)"
        | (prim) "py_eq_int b 0 \<or> py_eq_int b 1 \<or> py_eq_int b 2 \<or> (\<not> py_eq_int b 3 \<and>
            (py_eq_int b 4 \<or> py_eq_int b 5 \<or> py_eq_int b 6 \<or> py_eq_int b 7 \<or> py_eq_int b 9 \<or> \<not> py_eq_int b (- 2)))"
        by blast
      then show ?thesis
      proof cases
        case utf
        obtain r2 s2 where r2: "decode_next clock (Some (PyInt 0)) y = (r2, s2)"
          by (cases "decode_next clock (Some (PyInt 0)) y")
        have a: "remaining s2 \<le> remaining y" using IH1 [OF utf] r2 by simp
        have b: "remaining (snd (utf_payload s2)) \<le> remaining y"
          using utf_payload_remaining_le [of s2] a by (rule order_trans)
        show ?thesis using utf eq r2 a b by (cases r2) auto
      next
        case obj
        obtain r2 s2 where r2: "decode_next clock (Some (PyInt 3)) y = (r2, s2)"
          by (cases "decode_next clock (Some (PyInt 3)) y")
        have a: "remaining s2 \<le> remaining y" using IH2 [OF obj] r2 by simp
        show ?thesis
        proof (cases r2)
          case (Inl e)
          then show ?thesis using obj eq r2 a by simp
        next
          case (Inr name)
          obtain r3 s3 where r3: "decode_children clock [] s2 = (r3, s3)"
            by (cases "decode_children clock [] s2")
          have b: "remaining s3 \<le> remaining y"
            using IH3 [OF obj r2 [symmetric] Inr] r3 a by simp
          obtain r4 s4 where r4: "krds_unpack Fmt_b True s3 = (r4, s4)"
            by (cases "krds_unpack Fmt_b True s3")
          have c: "remaining s4 \<le> remaining y"
            using krds_unpack_remaining_le [of Fmt_b True s3] r4 b by simp
          show ?thesis using obj eq r2 Inr r3 r4 a b c
            by (cases r3; cases r4) auto
        qed
      next
        case prim
        then show ?thesis using eq by auto
      qed
    qed
    show ?thesis using le y_le y_less Inr by auto
  qed
next
  case (2 clock val s)
  obtain x y where xy: "(x, y) = krds_unpack Fmt_b False s" by (metis prod.collapse)
  have ys: "y = s" using krds_unpack_peek [of Fmt_b s x y] xy by simp
  show ?case
  proof (cases x)
    case (Inl e)
    then show ?thesis using ys by (simp add: decode_children.psimps [OF 2(1)] xy [symmetric])
  next
    case (Inr tag)
    show ?thesis
    proof (cases "py_eq_int tag (- 1)")
      case True
      then show ?thesis using ys Inr
        by (simp add: decode_children.psimps [OF 2(1)] xy [symmetric])
    next
      case False
      obtain r2 s2 where r2: "decode_next clock None y = (r2, s2)"
        by (cases "decode_next clock None y")
      have a: "remaining s2 \<le> remaining s" using 2(2) [OF xy Inr False] r2 ys by simp
      show ?thesis
      proof (cases r2)
        case (Inl e)
        then show ?thesis using ys \<open>x = Inr tag\<close> False r2 a
          by (simp add: decode_children.psimps [OF 2(1)] xy [symmetric])
      next
        case (Inr v)
        have b: "remaining (snd (decode_children clock (val @ [v]) s2)) \<le> remaining s2"
          using 2(3) [OF xy \<open>x = Inr tag\<close> False r2 [symmetric] Inr] .
        have "decode_children clock val s = decode_children clock (val @ [v]) s2"
          using ys \<open>x = Inr tag\<close> False r2 Inr
          by (simp add: decode_children.psimps [OF 2(1)] xy [symmetric])
        then show ?thesis using a b by simp
      qed
    qed
  qed
qed

definition call_rank :: "pyval option \<Rightarrow> nat" where
  "call_rank dta =
     (case dta of None \<Rightarrow> 0
      | Some t \<Rightarrow> if py_eq_int t 3 then 1 else if py_eq_int t (- 2) then 3 else 0)"

lemma py_eq_int_PyInt [simp]: "py_eq_int (PyInt i) k = (i = k)"
  by (simp add: py_eq_int_def)

lemma first_stage:
  assumes "(x, y) = (case dta of None \<Rightarrow> krds_unpack Fmt_b True s | Some t \<Rightarrow> (Inr t, s))"
    and "x = Inr b"
  shows "(dta = None \<and> remaining y < remaining s) \<or> (dta = Some b \<and> y = s)"
proof (cases dta)
  case None
  then have "krds_unpack Fmt_b True s = (Inr b, y)" using assms by simp
  then show ?thesis using None krds_unpack_remaining_less by blast
next
  case (Some t)
  then show ?thesis using assms by simp
qed

termination decode_next
proof (relation "inv_image (less_than <*lex*> less_than)
      (\<lambda>x. case x of Inl (c, dta, s) \<Rightarrow> (remaining s, call_rank dta)
                     | Inr (c, v, s) \<Rightarrow> (remaining s, 2))", goal_cases)
  case 1
  show ?case by (intro wf_inv_image wf_lex_prod wf_less_than)
next
  case (2 clock dta s x y b)
  from first_stage [OF 2(1) 2(2)] 2(6) show ?case
    by (auto simp: call_rank_def)
next
  case (3 clock dta s x y b)
  from first_stage [OF 3(1) 3(2)] 3(6) 3(12) show ?case
    by (auto simp: call_rank_def)
next
  case (4 clock dta s x y b xa ya ba)
  have "remaining ya \<le> remaining y"
    using decode_dom_remaining(1) [OF 4(15)] 4(13) [symmetric] by simp
  with first_stage [OF 4(1) 4(2)] 4(6) 4(12) show ?case
    by (auto simp: call_rank_def)
next
  case (5 clock val s x y b)
  have "y = s" using krds_unpack_peek [of Fmt_b s x y] 5(1) by simp
  then show ?case by (simp add: call_rank_def)
next
  case (6 clock val s x y b xa ya ba)
  have ys: "y = s" using krds_unpack_peek [of Fmt_b s x y] 6(1) by simp
  have "remaining ya < remaining y"
    using decode_dom_remaining(1) [OF 6(6)] 6(4) [symmetric] 6(5) by simp
  then show ?case using ys by simp
qed

text \<open>The equations are unfolded by hand where they are needed.\<close>

declare decode_next.simps [simp del] decode_children.simps [simp del]

section \<open>deserialize: the whole store\<close>

text \<open>\<^verbatim>\<open>KindleReaderDataStore.SIGNATURE\<close>\<close>

definition SIGNATURE :: "byte list" where
  "SIGNATURE = [0x00, 0x00, 0x00, 0x00, 0x00, 0x1A, 0xB1, 0x26]"

text \<open>\<^verbatim>\<open>val.items()\<close>: only a dictionary has the method.\<close>

fun py_items :: "pyval \<Rightarrow> error + (pyval \<times> pyval) list" where
  "py_items (PyDict kvs) = Inr kvs"
| "py_items _ = Inl AttributeError"

text \<open>
  \<^verbatim>\<open>for k, v in val.items(): if k in value: raise ...; value[k] = v\<close>
\<close>

fun merge_items :: "(pyval \<times> pyval) list \<Rightarrow> (pyval \<times> pyval) list \<Rightarrow> error + (pyval \<times> pyval) list" where
  "merge_items [] value = Inr value"
| "merge_items ((k, v) # items) value =
     andthen (dict_contains value k) (\<lambda>present.
       if present then Inl (DuplicateItem k)
       else merge_items items (dict_set value k v))"

text \<open>
  The loop \<^verbatim>\<open>for _ in range(value_cnt)\<close> of \<^verbatim>\<open>deserialize\<close>. When \<^verbatim>\<open>decode_next\<close> raises,
  the offset of the cursor and the entries merged so far are logged and the exception goes
  on.
\<close>

fun top_level_entries ::
  "clock \<Rightarrow> nat \<Rightarrow> (pyval \<times> pyval) list \<Rightarrow> KindleReaderDataStore \<Rightarrow> ((pyval \<times> pyval) list) result" where
  "top_level_entries clock 0 value s = (Inr value, s)"
| "top_level_entries clock (Suc n) value s =
     (case decode_next clock None s of
        (Inl e, s1) \<Rightarrow>
          (Inl e,
           s1\<lparr>log := log s1 @
              [Info_decode_failed (int (length (data s1)) - len_Deserializer (krds s1)),
               Info_partial_value value]\<rparr>)
      | (Inr val, s1) \<Rightarrow>
          (case andthen (py_items val) (\<lambda>items. merge_items items value) of
             Inl e \<Rightarrow> (Inl e, s1)
           | Inr value' \<Rightarrow> top_level_entries clock n value' s1))"

text \<open>
  \<^verbatim>\<open>KindleReaderDataStore.deserialize\<close>, in two parts: \<open>deserialize_values\<close> is the
  function from the line \<^verbatim>\<open>value_cnt = self.decode_next()\<close> to its end.
\<close>

definition deserialize_values :: "clock \<Rightarrow> KindleReaderDataStore \<Rightarrow> pyval result" where
  "deserialize_values clock s2 =
     (case decode_next clock None s2 of
        (Inl e, s3) \<Rightarrow> (Inl e, s3)
      | (Inr value_cnt, s3) \<Rightarrow>
          (case py_range value_cnt of
             Inl e \<Rightarrow> (Inl e, s3)
           | Inr n \<Rightarrow>
               (case top_level_entries clock n [] s3 of
                  (Inl e, s4) \<Rightarrow> (Inl e, s4)
                | (Inr value, s4) \<Rightarrow>
                    (Inr (PyDict value),
                     if len_Deserializer (krds s4) \<noteq> 0
                     then s4\<lparr>log := log s4 @ [Error_extra_data (len_Deserializer (krds s4))]\<rparr>
                     else s4))))"

definition deserialize :: "clock \<Rightarrow> KindleReaderDataStore \<Rightarrow> pyval result" where
  "deserialize clock self =
     (let s0 = self\<lparr>krds := Deserializer_init (data self)\<rparr>
      in case krds_extract (PyInt (int (length SIGNATURE))) s0 of
           (Inl e, s1) \<Rightarrow> (Inl e, s1)
         | (Inr signature, s1) \<Rightarrow>
             if signature \<noteq> PyBytes SIGNATURE then (Inl SignatureIncorrect, s1)
             else
               (case decode_next clock None s1 of
                  (Inl e, s2) \<Rightarrow> (Inl e, s2)
                | (Inr first_value, s2) \<Rightarrow>
                    if \<not> py_eq_int first_value 1 then (Inl (FirstValue first_value), s2)
                    else deserialize_values clock s2))"

text \<open>
  The top-level entries of a store by themselves: \<open>n\<close> values decoded one after the
  other, before they are merged.
\<close>

fun decode_entries :: "clock \<Rightarrow> nat \<Rightarrow> KindleReaderDataStore \<Rightarrow> (pyval list) result" where
  "decode_entries clock 0 s = (Inr [], s)"
| "decode_entries clock (Suc n) s =
     (case decode_next clock None s of
        (Inl e, s1) \<Rightarrow> (Inl e, s1)
      | (Inr v, s1) \<Rightarrow>
          (case decode_entries clock n s1 of
             (Inl e, s2) \<Rightarrow> (Inl e, s2)
           | (Inr vs, s2) \<Rightarrow> (Inr (v # vs), s2)))"

text \<open>The same object over a buffer with further bytes at its end.\<close>

definition with_trailing :: "byte list \<Rightarrow> KindleReaderDataStore \<Rightarrow> KindleReaderDataStore" where
  "with_trailing extra s =
     s\<lparr>krds := (krds s)\<lparr>buffer := buffer (krds s) @ extra\<rparr>, data := data s @ extra\<rparr>"

text \<open>
  What a named object decodes to, \<^verbatim>\<open>{name: obj}\<close>, and the item it adds to the mapping
  of the store.
\<close>

definition named_object :: "string \<times> pyval \<Rightarrow> pyval" where
  "named_object entry = PyDict [(PyStr (fst entry), snd entry)]"

definition named_item :: "string \<times> pyval \<Rightarrow> pyval \<times> pyval" where
  "named_item entry = (PyStr (fst entry), snd entry)"

text \<open>The cursor is inside its buffer.\<close>

definition wf_cursor :: "KindleReaderDataStore \<Rightarrow> bool" where
  "wf_cursor s = (0 \<le> offset (krds s) \<and> offset (krds s) \<le> int (length (buffer (krds s))))"

section \<open>Properties of the cursor\<close>

lemma py_slice_forward:
  assumes "0 \<le> a" "a \<le> int (length xs)" "0 \<le> n"
  shows "py_slice xs a (a + n) = take (nat n) (drop (nat a) xs)"
proof -
  have lo: "slice_index (length xs) a = nat a"
    using assms by (simp add: slice_index_def)
  have hi: "slice_index (length xs) (a + n) = min (nat a + nat n) (length xs)"
    using assms by (simp add: slice_index_def nat_add_distrib)
  have "take (min (nat a + nat n) (length xs) - nat a) (drop (nat a) xs) = take (nat n) (drop (nat a) xs)"
    by (cases "nat a + nat n \<le> length xs") (simp_all add: min_def)
  then show ?thesis by (simp add: py_slice_def lo hi)
qed

lemma length_py_slice_forward:
  assumes "0 \<le> a" "a \<le> int (length xs)" "0 \<le> n"
  shows "int (length (py_slice xs a (a + n))) = min n (int (length xs) - a)"
  using assms by (simp add: py_slice_forward min_def) linarith

lemma extract_ok:
  assumes "0 \<le> offset d" "offset d \<le> int (length (buffer d))" "0 \<le> n" "n \<le> len_Deserializer d"
  shows "extract_data (Some n) None adv d =
     (Inr (take (nat n) (drop (nat (offset d)) (buffer d))), if adv then d\<lparr>offset := offset d + n\<rparr> else d)"
proof -
  have "int (length (py_slice (buffer d) (offset d) (offset d + n))) = n"
    using assms length_py_slice_forward [of "offset d" "buffer d" n]
    by (simp add: len_Deserializer_def)
  then show ?thesis
    using assms by (simp add: extract_data_def py_slice_forward)
qed

lemma extract_fail:
  assumes "0 \<le> offset d" "offset d \<le> int (length (buffer d))" "\<not> (0 \<le> n \<and> n \<le> len_Deserializer d)"
  shows "extract_data (Some n) None adv d =
           (Inl (InsufficientData n (length (py_slice (buffer d) (offset d) (offset d + n)))), d)"
proof (cases "n < 0")
  case True
  then show ?thesis by (simp add: extract_data_def)
next
  case False
  then have "int (length (py_slice (buffer d) (offset d) (offset d + n))) < n"
    using assms length_py_slice_forward [of "offset d" "buffer d" n]
    by (simp add: len_Deserializer_def)
  then show ?thesis by (simp add: extract_data_def)
qed

lemma extract_inv:
  assumes "0 \<le> offset d" "offset d \<le> int (length (buffer d))"
  shows "buffer (snd (extract_data sz up adv d)) = buffer d
       \<and> offset d \<le> offset (snd (extract_data sz up adv d))
       \<and> offset (snd (extract_data sz up adv d)) \<le> int (length (buffer d))"
proof -
  define n where "n = (case sz of Some n \<Rightarrow> n | None \<Rightarrow> (case up of None \<Rightarrow> len_Deserializer d | Some u \<Rightarrow> u - offset d))"
  have e: "extract_data sz up adv d = extract_data (Some n) None adv d"
    by (simp add: extract_data_def n_def)
  show ?thesis
  proof (cases "0 \<le> n \<and> n \<le> len_Deserializer d")
    case True
    then show ?thesis
      using assms extract_ok [of d n adv] by (simp add: e len_Deserializer_def)
  next
    case False
    then show ?thesis
      using assms extract_fail [of d n adv] by (simp add: e)
  qed
qed

lemma unpack_ok:
  "0 \<le> offset d \<Longrightarrow> int (calcsize f) \<le> len_Deserializer d \<Longrightarrow>
   unpack f adv d =
     (Inr (unpack_value f (take (calcsize f) (drop (nat (offset d)) (buffer d)))),
      if adv then d\<lparr>offset := offset d + int (calcsize f)\<rparr> else d)"
  by (simp add: unpack_def unpack_from_def Let_def len_Deserializer_def)

lemma unpack_fail:
  "0 \<le> offset d \<Longrightarrow> \<not> int (calcsize f) \<le> len_Deserializer d \<Longrightarrow>
   unpack f adv d = (Inl StructError, d)"
  by (simp add: unpack_def unpack_from_def Let_def len_Deserializer_def)

lemma unpack_inv:
  assumes "0 \<le> offset d" "offset d \<le> int (length (buffer d))"
  shows "buffer (snd (unpack f adv d)) = buffer d
       \<and> offset d \<le> offset (snd (unpack f adv d))
       \<and> offset (snd (unpack f adv d)) \<le> int (length (buffer d))"
proof (cases "int (calcsize f) \<le> len_Deserializer d")
  case True
  then show ?thesis using assms by (simp add: unpack_ok len_Deserializer_def)
next
  case False
  then show ?thesis using assms by (simp add: unpack_fail)
qed

lemma step_inv:
  "0 \<le> offset d \<Longrightarrow> offset d \<le> int (length (buffer d)) \<Longrightarrow>
   buffer (step c d) = buffer d \<and> offset d \<le> offset (step c d) \<and> offset (step c d) \<le> int (length (buffer d))"
  by (cases c) (simp_all add: unpack_inv extract_inv)

lemma run_inv:
  "0 \<le> offset d \<Longrightarrow> offset d \<le> int (length (buffer d)) \<Longrightarrow>
   buffer (run ops d) = buffer d \<and> offset d \<le> offset (run ops d) \<and> offset (run ops d) \<le> int (length (buffer d))"
proof (induction ops arbitrary: d)
  case Nil
  then show ?case by (simp add: run_def)
next
  case (Cons c ops)
  have s: "buffer (step c d) = buffer d \<and> offset d \<le> offset (step c d) \<and> offset (step c d) \<le> int (length (buffer d))"
    using step_inv [OF Cons.prems] .
  have r: "run (c # ops) d = run ops (step c d)" by (simp add: run_def)
  have "buffer (run ops (step c d)) = buffer (step c d) \<and> offset (step c d) \<le> offset (run ops (step c d))
        \<and> offset (run ops (step c d)) \<le> int (length (buffer (step c d)))"
    using Cons.IH [of "step c d"] s Cons.prems by simp
  then show ?case using s r by simp
qed

lemma failed_unchanged: "failed c d \<Longrightarrow> step c d = d"
proof (cases c)
  case (Unpack f adv)
  assume "failed c d"
  then show ?thesis using Unpack unpack_cases [of f adv d] by auto
next
  case (Extract sz up adv)
  assume "failed c d"
  then show ?thesis using Extract by (auto simp: extract_data_def Let_def split: if_splits)
qed

text \<open>
  C8. Let \<open>d\<close> be the cursor after any sequence \<open>ops\<close> of operations on the buffer \<open>dat\<close>
  and \<open>d'\<close> the cursor after one more operation \<open>c\<close>, whatever it is. The buffer is
  still \<open>dat\<close>, the offset of \<open>d\<close> is at least 0, the offset of \<open>d'\<close> is at least that of
  \<open>d\<close> and at most the length of the buffer, and a failed operation leaves the cursor as
  it was. An extraction of \<open>n\<close> bytes succeeds, returns the next \<open>n\<close> bytes and advances by
  \<open>n\<close> exactly when \<open>0 \<le> n\<close> and \<open>n\<close> bytes remain, and otherwise fails with the cursor
  unchanged; a fixed-width read behaves the same way with the width of its format; a read
  that does not advance never moves the cursor.
\<close>

theorem cursor_offset_monotone_bounded:
  "let d = run ops (Deserializer_init dat); d' = step c d in
     buffer d = dat \<and> 0 \<le> offset d \<and> offset d \<le> offset d' \<and> offset d' \<le> int (length dat)
     \<and> (failed c d \<longrightarrow> d' = d)
     \<and> extract_data (Some n) None True d =
           (if 0 \<le> n \<and> n \<le> len_Deserializer d
            then (Inr (take (nat n) (drop (nat (offset d)) dat)), d\<lparr>offset := offset d + n\<rparr>)
            else (Inl (InsufficientData n (length (py_slice dat (offset d) (offset d + n)))), d))
     \<and> unpack f True d =
           (if int (calcsize f) \<le> len_Deserializer d
            then (Inr (unpack_value f (take (calcsize f) (drop (nat (offset d)) dat))),
                  d\<lparr>offset := offset d + int (calcsize f)\<rparr>)
            else (Inl StructError, d))
     \<and> snd (unpack f False d) = d"
proof -
  define d where "d = run ops (Deserializer_init dat)"
  have inv: "buffer d = dat \<and> 0 \<le> offset d \<and> offset d \<le> int (length dat)"
    using run_inv [of "Deserializer_init dat" ops] by (simp add: d_def Deserializer_init_def)
  then have b: "buffer d = dat" and lo: "0 \<le> offset d" and hi: "offset d \<le> int (length (buffer d))"
    by simp_all
  have st: "offset d \<le> offset (step c d) \<and> offset (step c d) \<le> int (length dat)"
    using step_inv [OF lo hi, of c] b by simp
  have ex: "extract_data (Some n) None True d =
           (if 0 \<le> n \<and> n \<le> len_Deserializer d
            then (Inr (take (nat n) (drop (nat (offset d)) dat)), d\<lparr>offset := offset d + n\<rparr>)
            else (Inl (InsufficientData n (length (py_slice dat (offset d) (offset d + n)))), d))"
  proof (cases "0 \<le> n \<and> n \<le> len_Deserializer d")
    case True
    then show ?thesis using extract_ok [OF lo hi, of n True] b by simp
  next
    case False
    then show ?thesis using extract_fail [OF lo hi False, of True] b by simp
  qed
  have un: "unpack f True d =
           (if int (calcsize f) \<le> len_Deserializer d
            then (Inr (unpack_value f (take (calcsize f) (drop (nat (offset d)) dat))),
                  d\<lparr>offset := offset d + int (calcsize f)\<rparr>)
            else (Inl StructError, d))"
  proof (cases "int (calcsize f) \<le> len_Deserializer d")
    case True
    then show ?thesis using unpack_ok [OF lo True, of True] b by simp
  next
    case False
    then show ?thesis using unpack_fail [OF lo False, of True] by simp
  qed
  have pk: "snd (unpack f False d) = d"
    using unpack_cases [of f False d] by auto
  have fl: "failed c d \<longrightarrow> step c d = d"
    using failed_unchanged by blast
  show ?thesis
    unfolding Let_def d_def [symmetric]
    using inv st ex un pk fl by blast
qed

theorem cursor_offset_monotone_bounded_witness:
  "failed (Extract (Some 5) None True) (run [Unpack Fmt_l True] (Deserializer_init [0, 0, 0, 1, 2]))
   \<and> step (Extract (Some 5) None True) (run [Unpack Fmt_l True] (Deserializer_init [0, 0, 0, 1, 2]))
       = run [Unpack Fmt_l True] (Deserializer_init [0, 0, 0, 1, 2])
   \<and> offset (run [Unpack Fmt_l True] (Deserializer_init [0, 0, 0, 1, 2])) = 4"
proof -
  have f: "failed (Extract (Some 5) None True) (run [Unpack Fmt_l True] (Deserializer_init [0, 0, 0, 1, 2]))"
    by code_simp
  have o: "offset (run [Unpack Fmt_l True] (Deserializer_init [0, 0, 0, 1, 2])) = 4"
    by code_simp
  show ?thesis
    using f o
      cursor_offset_monotone_bounded [of "[Unpack Fmt_l True]" "[0, 0, 0, 1, 2]"
        "Extract (Some 5) None True" 1 Fmt_b]
    unfolding Let_def by blast
qed

section \<open>Properties of decode\_object\<close>

lemma andthen_simps [simp]:
  "andthen (Inl e) f = Inl e"
  "andthen (Inr x) f = f x"
  by (simp_all add: andthen_def)

lemma if_Some_eq_None: "((if c then Some r else rest) = None) = (\<not> c \<and> rest = None)"
  by simp

lemma structure_rule_None_iff:
  "structure_rule clock name = None \<longleftrightarrow> name \<notin> set known_structures"
  unfolding structure_rule_def known_structures_def ANNOT_CLASS_NAMES_def
  by (simp only: if_Some_eq_None) (simp split del: if_split)

lemma decode_object_known:
  "structure_rule clock name = Some rule \<Longrightarrow>
   decode_object clock name val lg =
     (case rule val of
        Inl e \<Rightarrow> (Inl e, lg)
      | Inr (obj, val') \<Rightarrow>
          if val' \<noteq> [] then (Inl (ExcessValues name val'), lg)
          else (Inr (PyDict [(PyStr name, obj)]), lg))"
  by (simp add: decode_object_def split: sum.splits prod.splits)

lemma decode_object_unknown:
  "structure_rule clock name = None \<Longrightarrow>
   decode_object clock name val lg =
     (Inr (PyDict [(PyStr name, PyList val)]), lg @ [Error_unknown_structure name])"
  by (simp add: decode_object_def)

lemma key_eq_PyStr [simp]: "key_eq k (PyStr s) = (k = PyStr s)"
  by (cases k) (auto simp: key_eq_def split: option.splits)

lemma structure_rule_lpr: "structure_rule clock ''lpr'' = Some (dict_rule [lpr_stmt clock])"
  by (simp add: structure_rule_def)

lemma structure_rule_fpr: "structure_rule clock ''fpr'' = Some (dict_rule (fpr_stmts clock))"
  by (simp add: structure_rule_def)

lemma structure_rule_updated_lpr: "structure_rule clock ''updated_lpr'' = Some (dict_rule (fpr_stmts clock))"
  by (simp add: structure_rule_def)

text \<open>
  C2. For a name that the chain does not know, \<^verbatim>\<open>decode_object\<close> does not fail whatever
  the children are and however many: it logs the name as an unknown structure, and the
  value under the name is the list of the children as they were decoded, in their order.
\<close>

theorem unknown_structure_passes_children_through:
  "name \<notin> set known_structures \<Longrightarrow>
   decode_object clock name val lg =
     (Inr (PyDict [(PyStr name, PyList val)]), lg @ [Error_unknown_structure name])"
  using structure_rule_None_iff [of clock name] decode_object_unknown [of clock name val lg]
  by simp

theorem unknown_structure_passes_children_through_witness:
  "''my.new.structure'' \<notin> set known_structures
   \<and> decode_object fixed_clock ''my.new.structure'' [PyInt 7, PyStr ''x'', PyBool True] []
       = (Inr (PyDict [(PyStr ''my.new.structure'', PyList [PyInt 7, PyStr ''x'', PyBool True])]),
          [Error_unknown_structure ''my.new.structure''])"
proof -
  have h: "''my.new.structure'' \<notin> set known_structures"
    by (simp add: known_structures_def)
  show ?thesis
    using h unknown_structure_passes_children_through
      [OF h, of fixed_clock "[PyInt 7, PyStr ''x'', PyBool True]" "[]"]
    by simp
qed


lemma lpr_versioned:
  "v \<le> 2 \<Longrightarrow>
   decode_object clock ''lpr'' [PyInt v, pos, t] lg =
     (case unless_sentinel (isoformat_millis clock) t of
        Inl e \<Rightarrow> (Inl e, lg)
      | Inr tv \<Rightarrow> (Inr (PyDict [(PyStr ''lpr'', PyDict [(PyStr ''position'', pos), (PyStr ''time'', tv)])]), lg))"
  by (simp add: decode_object_known [OF structure_rule_lpr] dict_rule_def lpr_stmt_def decode_position_def
       py_le_int_def position_field_def time_field_def set_field_def split: sum.splits)




lemma fpr_layout:
  assumes "structure_rule clock name = Some (dict_rule (fpr_stmts clock))"
  shows "decode_object clock name [pos, t, tz, country, device] lg =
     (case unless_sentinel (isoformat_millis clock) t of
        Inl e \<Rightarrow> (Inl e, lg)
      | Inr tv \<Rightarrow>
          (Inr (PyDict [(PyStr name,
                  PyDict [(PyStr ''position'', pos),
                          (PyStr ''time'', tv),
                          (PyStr ''timeZoneOffset'', if py_eq_int tz (- 1) then PyNone else tz),
                          (PyStr ''country'', country),
                          (PyStr ''device'', device)])]), lg))"
  by (simp add: decode_object_known [OF assms] dict_rule_def fpr_stmts_def decode_position_def
       position_field_def time_field_def pop_field_def set_field_def unless_sentinel_def
       split: sum.splits)

lemma sentinel_int:
  "unless_sentinel (isoformat_millis clock) (PyInt t) =
     (if t = - 1 then Inr PyNone else andthen (clock (PyInt t)) (\<lambda>s. Inr (PyStr s)))"
  by (simp add: unless_sentinel_def isoformat_millis_def)

text \<open>
  C7. The time of \<^verbatim>\<open>lpr\<close> (with a version), and the time and the time zone offset of
  \<^verbatim>\<open>fpr\<close> and \<^verbatim>\<open>updated_lpr\<close>. For the integer \<open>-1\<close> the field is \<^verbatim>\<open>None\<close> and the clock
  is not consulted. For any other integer the time is the string that the conversion of
  that integer returns (the decode fails only if the conversion itself raises), and the
  time zone offset is the integer itself.
\<close>

theorem sentinel_maps_to_none:
  "(v \<le> 2 \<longrightarrow>
      decode_object clock ''lpr'' [PyInt v, pos, PyInt t] lg =
        (case (if t = - 1 then Inr PyNone else andthen (clock (PyInt t)) (\<lambda>s. Inr (PyStr s))) of
           Inl e \<Rightarrow> (Inl e, lg)
         | Inr tv \<Rightarrow>
             (Inr (PyDict [(PyStr ''lpr'',
                     PyDict [(PyStr ''position'', pos), (PyStr ''time'', tv)])]), lg)))
   \<and> (name \<in> {''fpr'', ''updated_lpr''} \<longrightarrow>
      decode_object clock name [pos, PyInt t, PyInt tz, country, device] lg =
        (case (if t = - 1 then Inr PyNone else andthen (clock (PyInt t)) (\<lambda>s. Inr (PyStr s))) of
           Inl e \<Rightarrow> (Inl e, lg)
         | Inr tv \<Rightarrow>
             (Inr (PyDict [(PyStr name,
                     PyDict [(PyStr ''position'', pos),
                             (PyStr ''time'', tv),
                             (PyStr ''timeZoneOffset'', if tz = - 1 then PyNone else PyInt tz),
                             (PyStr ''country'', country),
                             (PyStr ''device'', device)])]), lg)))"
proof -
  have a: "v \<le> 2 \<longrightarrow>
      decode_object clock ''lpr'' [PyInt v, pos, PyInt t] lg =
        (case (if t = - 1 then Inr PyNone else andthen (clock (PyInt t)) (\<lambda>s. Inr (PyStr s))) of
           Inl e \<Rightarrow> (Inl e, lg)
         | Inr tv \<Rightarrow>
             (Inr (PyDict [(PyStr ''lpr'',
                     PyDict [(PyStr ''position'', pos), (PyStr ''time'', tv)])]), lg))"
    using lpr_versioned [of v clock pos "PyInt t" lg] by (simp only: sentinel_int) blast
  have r: "name \<in> {''fpr'', ''updated_lpr''} \<Longrightarrow>
      structure_rule clock name = Some (dict_rule (fpr_stmts clock))"
    using structure_rule_fpr structure_rule_updated_lpr by auto
  have b: "name \<in> {''fpr'', ''updated_lpr''} \<longrightarrow>
      decode_object clock name [pos, PyInt t, PyInt tz, country, device] lg =
        (case (if t = - 1 then Inr PyNone else andthen (clock (PyInt t)) (\<lambda>s. Inr (PyStr s))) of
           Inl e \<Rightarrow> (Inl e, lg)
         | Inr tv \<Rightarrow>
             (Inr (PyDict [(PyStr name,
                     PyDict [(PyStr ''position'', pos),
                             (PyStr ''time'', tv),
                             (PyStr ''timeZoneOffset'', if tz = - 1 then PyNone else PyInt tz),
                             (PyStr ''country'', country),
                             (PyStr ''device'', device)])]), lg))"
  proof
    assume n: "name \<in> {''fpr'', ''updated_lpr''}"
    show "decode_object clock name [pos, PyInt t, PyInt tz, country, device] lg =
        (case (if t = - 1 then Inr PyNone else andthen (clock (PyInt t)) (\<lambda>s. Inr (PyStr s))) of
           Inl e \<Rightarrow> (Inl e, lg)
         | Inr tv \<Rightarrow>
             (Inr (PyDict [(PyStr name,
                     PyDict [(PyStr ''position'', pos),
                             (PyStr ''time'', tv),
                             (PyStr ''timeZoneOffset'', if tz = - 1 then PyNone else PyInt tz),
                             (PyStr ''country'', country),
                             (PyStr ''device'', device)])]), lg))"
      using fpr_layout [OF r [OF n], of pos "PyInt t" "PyInt tz" country device lg]
      by (simp only: sentinel_int py_eq_int_PyInt)
  qed
  show ?thesis using a b by (rule conjI)
qed

theorem sentinel_maps_to_none_witness:
  "decode_object fixed_clock ''fpr''
       [PyStr ''AAAA:12'', PyInt (- 1), PyInt (- 1), PyStr ''US'', PyStr ''kindle''] []
     = (Inr (PyDict [(PyStr ''fpr'',
              PyDict [(PyStr ''position'', PyStr ''AAAA:12''),
                      (PyStr ''time'', PyNone),
                      (PyStr ''timeZoneOffset'', PyNone),
                      (PyStr ''country'', PyStr ''US''),
                      (PyStr ''device'', PyStr ''kindle'')])]), [])
   \<and> decode_object fixed_clock ''lpr'' [PyInt 2, PyStr ''AAAA:12'', PyInt 1609459200000] []
     = (Inr (PyDict [(PyStr ''lpr'',
              PyDict [(PyStr ''position'', PyStr ''AAAA:12''),
                      (PyStr ''time'', PyStr ''2021-01-01T00:00:00'')])]), [])"
proof -
  have a: "(2::int) \<le> 2" by simp
  have n: "''fpr'' \<in> {''fpr'', ''updated_lpr''}" by simp
  have l: "decode_object fixed_clock ''lpr'' [PyInt 2, PyStr ''AAAA:12'', PyInt 1609459200000] [] =
        (case (if (1609459200000::int) = - 1 then Inr PyNone
               else andthen (fixed_clock (PyInt 1609459200000)) (\<lambda>s. Inr (PyStr s))) of
           Inl e \<Rightarrow> (Inl e, [])
         | Inr tv \<Rightarrow>
             (Inr (PyDict [(PyStr ''lpr'',
                     PyDict [(PyStr ''position'', PyStr ''AAAA:12''), (PyStr ''time'', tv)])]), []))"
    using a sentinel_maps_to_none
      [of 2 fixed_clock "PyStr ''AAAA:12''" 1609459200000 "[]" "''fpr''" "- 1" "PyStr ''US''" "PyStr ''kindle''"]
    by blast
  have f: "decode_object fixed_clock ''fpr''
       [PyStr ''AAAA:12'', PyInt (- 1), PyInt (- 1), PyStr ''US'', PyStr ''kindle''] [] =
        (case (if (- 1::int) = - 1 then Inr PyNone
               else andthen (fixed_clock (PyInt (- 1))) (\<lambda>s. Inr (PyStr s))) of
           Inl e \<Rightarrow> (Inl e, [])
         | Inr tv \<Rightarrow>
             (Inr (PyDict [(PyStr ''fpr'',
                     PyDict [(PyStr ''position'', PyStr ''AAAA:12''),
                             (PyStr ''time'', tv),
                             (PyStr ''timeZoneOffset'', if (- 1::int) = - 1 then PyNone else PyInt (- 1)),
                             (PyStr ''country'', PyStr ''US''),
                             (PyStr ''device'', PyStr ''kindle'')])]), []))"
    using n sentinel_maps_to_none
      [of 2 fixed_clock "PyStr ''AAAA:12''" "- 1" "[]" "''fpr''" "- 1" "PyStr ''US''" "PyStr ''kindle''"]
    by blast
  show ?thesis using l f by (simp add: fixed_clock_def)
qed

lemma year_limit_clock_last_int64:
  "year_limit_clock (PyInt 9223372036854775807) = Inl ValueError"
  by (simp add: year_limit_clock_def)

lemma int64_tagged_maximum:
  "decode_next clock None (KindleReaderDataStore_init lg
        [2, 0x7F, 0xFF, 0xFF, 0xFF, 0xFF, 0xFF, 0xFF, 0xFF])
     = (Inr (PyInt 9223372036854775807),
        (KindleReaderDataStore_init lg [2, 0x7F, 0xFF, 0xFF, 0xFF, 0xFF, 0xFF, 0xFF, 0xFF])
          \<lparr>krds := \<lparr>buffer = [2, 0x7F, 0xFF, 0xFF, 0xFF, 0xFF, 0xFF, 0xFF, 0xFF], offset = 9\<rparr>\<rparr>)"
  by (subst decode_next.simps)
     (simp add: KindleReaderDataStore_init_def Deserializer_init_def krds_unpack_def unpack_def
        unpack_from_def be_sint_def be_uint_def Let_def)

text \<open>
  C7, a time that is not \<open>-1\<close> and gives no value. The largest 64-bit integer is a value
  that the bytes of a file can hold. As the time of \<^verbatim>\<open>lpr\<close> it is not the sentinel, the
  conversion raises \<^verbatim>\<open>ValueError\<close> for it, and the decode of the object fails with that
  exception instead of giving a time.
\<close>

theorem time_past_last_year_fails:
  "fst (decode_next year_limit_clock None (KindleReaderDataStore_init []
          [2, 0x7F, 0xFF, 0xFF, 0xFF, 0xFF, 0xFF, 0xFF, 0xFF]))
     = Inr (PyInt 9223372036854775807)
   \<and> \<not> py_eq_int (PyInt 9223372036854775807) (- 1)
   \<and> decode_object year_limit_clock ''lpr''
        [PyInt 1, PyStr ''AAAA:12'', PyInt 9223372036854775807] []
     = (Inl ValueError, [])"
proof (intro conjI)
  show "fst (decode_next year_limit_clock None (KindleReaderDataStore_init []
          [2, 0x7F, 0xFF, 0xFF, 0xFF, 0xFF, 0xFF, 0xFF, 0xFF]))
     = Inr (PyInt 9223372036854775807)"
    by (simp only: int64_tagged_maximum fst_conv)
next
  show "\<not> py_eq_int (PyInt 9223372036854775807) (- 1)" by simp
next
  show "decode_object year_limit_clock ''lpr''
        [PyInt 1, PyStr ''AAAA:12'', PyInt 9223372036854775807] []
     = (Inl ValueError, [])"
    using lpr_versioned [of 1 year_limit_clock "PyStr ''AAAA:12''" "PyInt 9223372036854775807" "[]"]
    by (simp add: sentinel_int year_limit_clock_last_int64)
qed

lemma pop_list_nonpositive: "n \<le> 0 \<Longrightarrow> pop_list f (PyInt n # rest) = Inr ([], rest)"
  by (simp add: pop_list_def)

lemma key_value_map_nonpositive: "n \<le> 0 \<Longrightarrow> key_value_map (obj, PyInt n # rest) = Inr (obj, rest)"
  by (simp add: key_value_map_def)

lemma annotation_cache_nonpositive: "n \<le> 0 \<Longrightarrow> annotation_cache (obj, PyInt n # rest) = Inr (obj, rest)"
  by (simp add: annotation_cache_def)

lemma structure_rule_kv1: "structure_rule clock ''dict.prefs.v2'' = Some (dict_rule [key_value_map])"
  by (simp add: structure_rule_def)

lemma structure_rule_kv2: "structure_rule clock ''EndActions'' = Some (dict_rule [key_value_map])"
  by (simp add: structure_rule_def)

lemma structure_rule_kv3: "structure_rule clock ''ReaderMetrics'' = Some (dict_rule [key_value_map])"
  by (simp add: structure_rule_def)

lemma structure_rule_kv4: "structure_rule clock ''StartActions'' = Some (dict_rule [key_value_map])"
  by (simp add: structure_rule_def)

lemma structure_rule_kv5: "structure_rule clock ''Translator'' = Some (dict_rule [key_value_map])"
  by (simp add: structure_rule_def)

lemma structure_rule_kv6: "structure_rule clock ''Wikipedia'' = Some (dict_rule [key_value_map])"
  by (simp add: structure_rule_def)

lemma structure_rule_key_value:
  assumes "name \<in> {''dict.prefs.v2'', ''EndActions'', ''ReaderMetrics'', ''StartActions'',
                    ''Translator'', ''Wikipedia''}"
  shows "structure_rule clock name = Some (dict_rule [key_value_map])"
proof -
  from assms have "name = ''dict.prefs.v2'' \<or> name = ''EndActions'' \<or> name = ''ReaderMetrics''
    \<or> name = ''StartActions'' \<or> name = ''Translator'' \<or> name = ''Wikipedia''"
    by (simp only: insert_iff empty_iff simp_thms)
  then show ?thesis
    by (elim disjE)
      (simp_all only: structure_rule_kv1 structure_rule_kv2 structure_rule_kv3 structure_rule_kv4
         structure_rule_kv5 structure_rule_kv6)
qed

lemma structure_rule_annotation_cache:
  "structure_rule clock ''annotation.cache.object'' = Some (dict_rule [annotation_cache])"
  by (simp add: structure_rule_def)

lemma structure_rule_interval_tree:
  "structure_rule clock ''saved.avl.interval.tree'' = Some (list_rule Inr)"
  by (simp add: structure_rule_def)

lemma structure_rule_outliers:
  "structure_rule clock ''timer.average.calculator.outliers'' = Some (list_rule Inr)"
  by (simp add: structure_rule_def ANNOT_CLASS_NAMES_def)

lemma structure_rule_page_history_store:
  "structure_rule clock ''page.history.store'' = Some (list_rule (member_of ''page.history.record''))"
  by (simp add: structure_rule_def ANNOT_CLASS_NAMES_def)

lemma structure_rule_apnx_key:
  "structure_rule clock ''apnx.key'' = Some (dict_rule
         [pop_field ''asin'',
          pop_field ''cdeType'',
          pop_field ''sidecarAvailable'',
          list_field ''oPNToPosition'' Inr,
          pop_field ''first'',
          pop_field ''unknown1'',
          pop_field ''unknown2'',
          pop_field ''pageMap''])"
  by (simp add: structure_rule_def ANNOT_CLASS_NAMES_def)

lemma structure_rule_average_calculator:
  "structure_rule clock ''timer.average.calculator'' = Some (dict_rule
         [list_field ''samples1'' Inr,
          list_field ''samples2'' Inr,
          list_field ''normalDistributions'' (member_of ''timer.average.calculator.distribution.normal''),
          list_field ''outliers'' (member_of ''timer.average.calculator.outliers'')])"
  by (simp add: structure_rule_def ANNOT_CLASS_NAMES_def)

lemma list_field_nonpositive:
  "n \<le> 0 \<Longrightarrow> list_field key f (obj, PyInt n # rest) = Inr (dict_set obj (PyStr key) (PyList []), rest)"
  by (simp add: list_field_def pop_list_nonpositive)

lemma pop_field_Cons: "pop_field key (obj, x # rest) = Inr (dict_set obj (PyStr key) x, rest)"
  by (simp add: pop_field_def set_field_def)

lemma count_first_dict:
  assumes "structure_rule clock name = Some (dict_rule [stmt])"
    and "stmt ([], PyInt n # rest) = Inr ([], rest)"
  shows "decode_object clock name (PyInt n # rest) lg =
     (if rest = [] then (Inr (PyDict [(PyStr name, PyDict [])]), lg)
      else (Inl (ExcessValues name rest), lg))"
  by (simp add: decode_object_known [OF assms(1)] dict_rule_def assms(2))

lemma count_first_list:
  assumes "structure_rule clock name = Some (list_rule f)" and "n \<le> 0"
  shows "decode_object clock name (PyInt n # rest) lg =
     (if rest = [] then (Inr (PyDict [(PyStr name, PyList [])]), lg)
      else (Inl (ExcessValues name rest), lg))"
  by (simp add: decode_object_known [OF assms(1)] list_rule_def pop_list_nonpositive [OF assms(2)])

lemma apnx_nonpositive:
  assumes "n \<le> 0"
  shows "decode_object clock ''apnx.key'' (asin # cde # sidecar # PyInt n # rest) lg =
         decode_object clock ''apnx.key'' (asin # cde # sidecar # PyInt 0 # rest) lg"
  by (simp add: decode_object_known [OF structure_rule_apnx_key] dict_rule_def pop_field_Cons
        list_field_nonpositive [OF assms] list_field_nonpositive [of 0])

lemma apnx_empty_list:
  assumes "n \<le> 0"
  shows "decode_object clock ''apnx.key'' [asin, cde, sidecar, PyInt n, first, u1, u2, pm] lg =
     (Inr (PyDict [(PyStr ''apnx.key'',
        PyDict [(PyStr ''asin'', asin), (PyStr ''cdeType'', cde), (PyStr ''sidecarAvailable'', sidecar),
                (PyStr ''oPNToPosition'', PyList []), (PyStr ''first'', first),
                (PyStr ''unknown1'', u1), (PyStr ''unknown2'', u2), (PyStr ''pageMap'', pm)])]), lg)"
  by (simp add: decode_object_known [OF structure_rule_apnx_key] dict_rule_def pop_field_Cons
        list_field_nonpositive [OF assms])

lemma average_calculator_nonpositive:
  assumes "n1 \<le> 0" "n2 \<le> 0" "n3 \<le> 0" "n4 \<le> 0"
  shows "decode_object clock ''timer.average.calculator'' (PyInt n1 # PyInt n2 # PyInt n3 # PyInt n4 # rest) lg =
     (if rest = [] then
        (Inr (PyDict [(PyStr ''timer.average.calculator'',
           PyDict [(PyStr ''samples1'', PyList []), (PyStr ''samples2'', PyList []),
                   (PyStr ''normalDistributions'', PyList []), (PyStr ''outliers'', PyList [])])]), lg)
      else (Inl (ExcessValues ''timer.average.calculator'' rest), lg))"
  by (simp add: decode_object_known [OF structure_rule_average_calculator] dict_rule_def
        list_field_nonpositive assms)

text \<open>
  C10. A count that is negative (or zero) starts no iteration: the rule consumes no child
  for the collection and the collection is empty, and the count itself raises nothing.
  For the key/value maps and \<^verbatim>\<open>annotation.cache.object\<close> the result is the empty
  dictionary, and for \<^verbatim>\<open>saved.avl.interval.tree\<close>,
  \<^verbatim>\<open>timer.average.calculator.outliers\<close> and \<^verbatim>\<open>page.history.store\<close> the empty list, when
  no child follows the count; any child that follows is an excess value. In
  \<^verbatim>\<open>apnx.key\<close> the decode is the same as with the count 0, and \<^verbatim>\<open>oPNToPosition\<close> is the
  empty list. In \<^verbatim>\<open>timer.average.calculator\<close> four such counts give four empty lists.
\<close>

theorem nonpositive_count_gives_empty_collection:
  assumes "n \<le> 0"
  shows
    "(name \<in> {''dict.prefs.v2'', ''EndActions'', ''ReaderMetrics'', ''StartActions'',
               ''Translator'', ''Wikipedia'', ''annotation.cache.object''} \<longrightarrow>
        decode_object clock name (PyInt n # rest) lg =
          (if rest = [] then (Inr (PyDict [(PyStr name, PyDict [])]), lg)
           else (Inl (ExcessValues name rest), lg)))
     \<and> (name \<in> {''saved.avl.interval.tree'', ''timer.average.calculator.outliers'',
                 ''page.history.store''} \<longrightarrow>
        decode_object clock name (PyInt n # rest) lg =
          (if rest = [] then (Inr (PyDict [(PyStr name, PyList [])]), lg)
           else (Inl (ExcessValues name rest), lg)))
     \<and> decode_object clock ''apnx.key'' (asin # cde # sidecar # PyInt n # rest) lg =
         decode_object clock ''apnx.key'' (asin # cde # sidecar # PyInt 0 # rest) lg
     \<and> decode_object clock ''apnx.key'' [asin, cde, sidecar, PyInt n, first, u1, u2, pm] lg =
         (Inr (PyDict [(PyStr ''apnx.key'',
            PyDict [(PyStr ''asin'', asin), (PyStr ''cdeType'', cde),
                    (PyStr ''sidecarAvailable'', sidecar),
                    (PyStr ''oPNToPosition'', PyList []), (PyStr ''first'', first),
                    (PyStr ''unknown1'', u1), (PyStr ''unknown2'', u2),
                    (PyStr ''pageMap'', pm)])]), lg)
     \<and> (n2 \<le> 0 \<and> n3 \<le> 0 \<and> n4 \<le> 0 \<longrightarrow>
        decode_object clock ''timer.average.calculator''
            (PyInt n # PyInt n2 # PyInt n3 # PyInt n4 # rest) lg =
          (if rest = [] then
             (Inr (PyDict [(PyStr ''timer.average.calculator'',
                PyDict [(PyStr ''samples1'', PyList []), (PyStr ''samples2'', PyList []),
                        (PyStr ''normalDistributions'', PyList []),
                        (PyStr ''outliers'', PyList [])])]), lg)
           else (Inl (ExcessValues ''timer.average.calculator'' rest), lg)))"
proof (intro conjI impI)
  assume m: "name \<in> {''dict.prefs.v2'', ''EndActions'', ''ReaderMetrics'', ''StartActions'',
               ''Translator'', ''Wikipedia'', ''annotation.cache.object''}"
  show "decode_object clock name (PyInt n # rest) lg =
          (if rest = [] then (Inr (PyDict [(PyStr name, PyDict [])]), lg)
           else (Inl (ExcessValues name rest), lg))"
  proof (cases "name = ''annotation.cache.object''")
    case True
    show ?thesis
      unfolding True
      by (rule count_first_dict [OF structure_rule_annotation_cache
            annotation_cache_nonpositive [OF assms]])
  next
    case False
    with m have "name \<in> {''dict.prefs.v2'', ''EndActions'', ''ReaderMetrics'', ''StartActions'',
                    ''Translator'', ''Wikipedia''}"
      by (simp only: insert_iff empty_iff simp_thms)
    then show ?thesis
      by (rule count_first_dict [OF structure_rule_key_value key_value_map_nonpositive [OF assms]])
  qed
next
  assume "name \<in> {''saved.avl.interval.tree'', ''timer.average.calculator.outliers'',
                 ''page.history.store''}"
  then have "name = ''saved.avl.interval.tree'' \<or> name = ''timer.average.calculator.outliers''
      \<or> name = ''page.history.store''"
    by (simp only: insert_iff empty_iff simp_thms)
  then show "decode_object clock name (PyInt n # rest) lg =
          (if rest = [] then (Inr (PyDict [(PyStr name, PyList [])]), lg)
           else (Inl (ExcessValues name rest), lg))"
    using count_first_list [OF structure_rule_interval_tree assms]
      count_first_list [OF structure_rule_outliers assms]
      count_first_list [OF structure_rule_page_history_store assms]
    by (elim disjE) (simp_all only:)
next
  show "decode_object clock ''apnx.key'' (asin # cde # sidecar # PyInt n # rest) lg =
         decode_object clock ''apnx.key'' (asin # cde # sidecar # PyInt 0 # rest) lg"
    by (rule apnx_nonpositive [OF assms])
next
  show "decode_object clock ''apnx.key'' [asin, cde, sidecar, PyInt n, first, u1, u2, pm] lg =
         (Inr (PyDict [(PyStr ''apnx.key'',
            PyDict [(PyStr ''asin'', asin), (PyStr ''cdeType'', cde),
                    (PyStr ''sidecarAvailable'', sidecar),
                    (PyStr ''oPNToPosition'', PyList []), (PyStr ''first'', first),
                    (PyStr ''unknown1'', u1), (PyStr ''unknown2'', u2),
                    (PyStr ''pageMap'', pm)])]), lg)"
    by (rule apnx_empty_list [OF assms])
next
  assume "n2 \<le> 0 \<and> n3 \<le> 0 \<and> n4 \<le> 0"
  then show "decode_object clock ''timer.average.calculator''
            (PyInt n # PyInt n2 # PyInt n3 # PyInt n4 # rest) lg =
          (if rest = [] then
             (Inr (PyDict [(PyStr ''timer.average.calculator'',
                PyDict [(PyStr ''samples1'', PyList []), (PyStr ''samples2'', PyList []),
                        (PyStr ''normalDistributions'', PyList []),
                        (PyStr ''outliers'', PyList [])])]), lg)
           else (Inl (ExcessValues ''timer.average.calculator'' rest), lg))"
    using average_calculator_nonpositive [OF assms, of n2 n3 n4] by blast
qed

theorem nonpositive_count_gives_empty_collection_witness:
  "(- 3 :: int) \<le> 0
   \<and> decode_object fixed_clock ''Wikipedia'' [PyInt (- 3)] [] =
       (Inr (PyDict [(PyStr ''Wikipedia'', PyDict [])]), [])
   \<and> decode_object fixed_clock ''saved.avl.interval.tree'' [PyInt (- 3), PyStr ''x''] [] =
       (Inl (ExcessValues ''saved.avl.interval.tree'' [PyStr ''x'']), [])"
proof -
  have h: "(- 3 :: int) \<le> 0" by simp
  have k: "''Wikipedia'' \<in> {''dict.prefs.v2'', ''EndActions'', ''ReaderMetrics'', ''StartActions'',
               ''Translator'', ''Wikipedia'', ''annotation.cache.object''}" by simp
  have t: "''saved.avl.interval.tree'' \<in> {''saved.avl.interval.tree'',
               ''timer.average.calculator.outliers'', ''page.history.store''}" by simp
  have a: "decode_object fixed_clock ''Wikipedia'' [PyInt (- 3)] [] =
          (if ([]::pyval list) = [] then (Inr (PyDict [(PyStr ''Wikipedia'', PyDict [])]), [])
           else (Inl (ExcessValues ''Wikipedia'' []), []))"
    using nonpositive_count_gives_empty_collection
      [OF h, of "''Wikipedia''" fixed_clock "[]" "[]", THEN conjunct1, THEN mp, OF k] .
  have b: "decode_object fixed_clock ''saved.avl.interval.tree'' [PyInt (- 3), PyStr ''x''] [] =
          (if [PyStr ''x''] = [] then (Inr (PyDict [(PyStr ''saved.avl.interval.tree'', PyList [])]), [])
           else (Inl (ExcessValues ''saved.avl.interval.tree'' [PyStr ''x'']), []))"
    using nonpositive_count_gives_empty_collection
      [OF h, of "''saved.avl.interval.tree''" fixed_clock "[PyStr ''x'']" "[]",
       THEN conjunct2, THEN conjunct1, THEN mp, OF t] .
  show ?thesis using h a b by simp
qed

lemma dict_get_PyStr: "dict_get d (PyStr k) = map_of d (PyStr k)"
  by (induction d) auto

lemma map_of_dict_set_PyStr:
  "map_of (dict_set d (PyStr k) v) = (map_of d)(PyStr k \<mapsto> v)"
  by (induction d) (auto simp: fun_eq_iff)

lemma keys_dict_set_PyStr:
  "map fst (dict_set d (PyStr k) v) =
     (if PyStr k \<in> set (map fst d) then map fst d else map fst d @ [PyStr k])"
  by (induction d) force+

lemma key_value_pairs_strings:
  "key_value_pairs (length pairs) (obj, pair_children pairs @ rest) =
     Inr (foldl (\<lambda>d (k, v). dict_set d (PyStr k) v) obj pairs, rest)"
proof (induction pairs arbitrary: obj)
  case Nil
  then show ?case by (simp add: pair_children_def)
next
  case (Cons p pairs)
  obtain k v where p: "p = (k, v)" by (cases p)
  have "pair_children (p # pairs) @ rest = PyStr k # v # (pair_children pairs @ rest)"
    by (simp add: pair_children_def p)
  then show ?case
    using Cons.IH [of "dict_set obj (PyStr k) v"] by (simp add: p setitem_def)
qed

lemma foldl_dict_set_lookup:
  "map_of (foldl (\<lambda>d (k, v). dict_set d (PyStr k) v) obj pairs) (PyStr k) =
     (case map_of (rev pairs) k of Some v \<Rightarrow> Some v | None \<Rightarrow> map_of obj (PyStr k))"
proof (induction pairs arbitrary: obj)
  case Nil
  then show ?case by simp
next
  case (Cons p pairs)
  obtain k' v' where p: "p = (k', v')" by (cases p)
  show ?case
    using Cons.IH [of "dict_set obj (PyStr k') v'"]
    by (simp add: p map_of_dict_set_PyStr map_add_def split: option.splits)
qed

lemma foldl_dict_set_keys:
  "distinct (map fst obj) \<Longrightarrow>
   distinct (map fst (foldl (\<lambda>d (k, v). dict_set d (PyStr k) v) obj pairs))
   \<and> set (map fst (foldl (\<lambda>d (k, v). dict_set d (PyStr k) v) obj pairs))
       = set (map fst obj) \<union> PyStr ` fst ` set pairs"
proof (induction pairs arbitrary: obj)
  case Nil
  then show ?case by simp
next
  case (Cons p pairs)
  obtain k v where p: "p = (k, v)" by (cases p)
  have d: "distinct (map fst (dict_set obj (PyStr k) v))"
    using Cons.prems by (simp add: keys_dict_set_PyStr)
  have s: "set (map fst (dict_set obj (PyStr k) v)) = insert (PyStr k) (set (map fst obj))"
    by (auto simp: keys_dict_set_PyStr)
  show ?case
    using Cons.IH [OF d] s by (simp add: p)
qed

lemma length_foldl_dict_set:
  "length (foldl (\<lambda>d (k, v). dict_set d (PyStr k) v) [] pairs) = card (fst ` set pairs)"
proof -
  let ?m = "foldl (\<lambda>d (k, v). dict_set d (PyStr k) v) [] pairs"
  have k: "distinct (map fst ?m) \<and> set (map fst ?m) = PyStr ` fst ` set pairs"
    using foldl_dict_set_keys [of "[]" pairs] by simp
  then have "length (map fst ?m) = card (PyStr ` fst ` set pairs)"
    using distinct_card [of "map fst ?m"] by simp
  also have "\<dots> = card (fst ` set pairs)"
    by (rule card_image) (simp add: inj_on_def)
  finally show ?thesis by simp
qed

lemma repeated_key_shrinks:
  "\<not> distinct (map fst pairs) \<Longrightarrow> card (fst ` set pairs) < length pairs"
proof -
  assume nd: "\<not> distinct (map fst pairs)"
  have "card (set (map fst pairs)) \<le> length (map fst pairs)" by (rule card_length)
  moreover have "card (set (map fst pairs)) \<noteq> length (map fst pairs)"
    using nd card_distinct [of "map fst pairs"] by blast
  ultimately show ?thesis by simp
qed

lemma merge_items_duplicate:
  "dict_get value (PyStr k) \<noteq> None \<Longrightarrow>
   merge_items ((PyStr k, v) # items) value = Inl (DuplicateItem (PyStr k))"
  by (simp add: dict_contains_def)

text \<open>
  C9. In a key/value map whose count is the number of pairs that follow (with string
  keys), no repetition of a key is an error. The map is what the assignments
  \<^verbatim>\<open>obj[k] = v\<close> build from the empty dictionary, pair after pair: looking a key up gives
  the value of the last pair with that key, the map has as many entries as there are
  different keys, and fewer entries than pairs when a key is repeated. At the top level
  (\<open>merge_items\<close>) a name that is already a key is fatal instead.
\<close>

theorem repeated_key_overwrites:
  assumes "name \<in> {''dict.prefs.v2'', ''EndActions'', ''ReaderMetrics'', ''StartActions'',
                    ''Translator'', ''Wikipedia''}"
  shows
    "let m = foldl (\<lambda>d (k, v). dict_set d (PyStr k) v) [] pairs in
       decode_object clock name (PyInt (int (length pairs)) # pair_children pairs) lg =
         (Inr (PyDict [(PyStr name, PyDict m)]), lg)
       \<and> (\<forall>k. dict_get m (PyStr k) = map_of (rev pairs) k)
       \<and> length m = card (fst ` set pairs)
       \<and> (\<not> distinct (map fst pairs) \<longrightarrow> length m < length pairs)
       \<and> (dict_get value (PyStr k0) \<noteq> None \<longrightarrow>
            merge_items ((PyStr k0, v0) # items) value = Inl (DuplicateItem (PyStr k0)))"
proof -
  define m where "m = foldl (\<lambda>d (k, v). dict_set d (PyStr k) v) [] pairs"
  have r: "structure_rule clock name = Some (dict_rule [key_value_map])"
    by (rule structure_rule_key_value [OF assms])
  have kv: "key_value_map ([], PyInt (int (length pairs)) # pair_children pairs) = Inr (m, [])"
    using key_value_pairs_strings [of pairs "[]" "[]"] by (simp add: key_value_map_def m_def)
  have a: "decode_object clock name (PyInt (int (length pairs)) # pair_children pairs) lg =
         (Inr (PyDict [(PyStr name, PyDict m)]), lg)"
    by (simp add: decode_object_known [OF r] dict_rule_def kv)
  have b: "\<forall>k. dict_get m (PyStr k) = map_of (rev pairs) k"
  proof
    fix k
    show "dict_get m (PyStr k) = map_of (rev pairs) k"
      using foldl_dict_set_lookup [of "[]" pairs k]
      by (simp add: dict_get_PyStr m_def split: option.splits)
  qed
  have c: "length m = card (fst ` set pairs)"
    unfolding m_def by (rule length_foldl_dict_set)
  have d: "\<not> distinct (map fst pairs) \<longrightarrow> length m < length pairs"
    using c repeated_key_shrinks [of pairs] by simp
  have e: "dict_get value (PyStr k0) \<noteq> None \<longrightarrow>
            merge_items ((PyStr k0, v0) # items) value = Inl (DuplicateItem (PyStr k0))"
    using merge_items_duplicate by blast
  show ?thesis
    unfolding Let_def m_def [symmetric] using a b c d e by blast
qed

theorem repeated_key_overwrites_witness:
  "\<not> distinct (map fst [(''a'', PyInt 1), (''b'', PyInt 2), (''a'', PyInt 3)])
   \<and> decode_object fixed_clock ''Wikipedia''
        [PyInt 3, PyStr ''a'', PyInt 1, PyStr ''b'', PyInt 2, PyStr ''a'', PyInt 3] [] =
       (Inr (PyDict [(PyStr ''Wikipedia'', PyDict [(PyStr ''a'', PyInt 3), (PyStr ''b'', PyInt 2)])]), [])
   \<and> length [(PyStr ''a'', PyInt 3), (PyStr ''b'', PyInt 2)] < (3::nat)"
proof -
  let ?pairs = "[(''a'', PyInt 1), (''b'', PyInt 2), (''a'', PyInt 3)]"
  have n: "''Wikipedia'' \<in> {''dict.prefs.v2'', ''EndActions'', ''ReaderMetrics'', ''StartActions'',
                    ''Translator'', ''Wikipedia''}" by simp
  have nd: "\<not> distinct (map fst ?pairs)" by simp
  have m: "foldl (\<lambda>d (k, v). dict_set d (PyStr k) v) [] ?pairs
             = [(PyStr ''a'', PyInt 3), (PyStr ''b'', PyInt 2)]"
    by simp
  have c: "PyInt (int (length ?pairs)) # pair_children ?pairs
             = [PyInt 3, PyStr ''a'', PyInt 1, PyStr ''b'', PyInt 2, PyStr ''a'', PyInt 3]"
    by (simp add: pair_children_def)
  have t: "decode_object fixed_clock ''Wikipedia''
             (PyInt (int (length ?pairs)) # pair_children ?pairs) [] =
           (Inr (PyDict [(PyStr ''Wikipedia'',
              PyDict (foldl (\<lambda>d (k, v). dict_set d (PyStr k) v) [] ?pairs))]), [])"
    using repeated_key_overwrites [OF n, of ?pairs fixed_clock "[]" "[]" "[]" PyNone "[]"]
    unfolding Let_def by (rule conjunct1)
  show ?thesis using nd t unfolding c m by simp
qed

section \<open>Rules consume their children in order\<close>

text \<open>
  A rule is positional when a successful run depends on the children it consumed only:
  with any other children after them the result is the same and those children are left
  over, and with fewer children than it consumed the rule ends with \<^verbatim>\<open>IndexError\<close>, the
  exception of \<^verbatim>\<open>pop\<close> on an empty list.
\<close>

definition positional :: "(pyval list \<Rightarrow> error + 'a \<times> pyval list) \<Rightarrow> bool" where
  "positional f =
     (\<forall>val res rest. f val = Inr (res, rest) \<longrightarrow>
        (\<exists>used. val = used @ rest
           \<and> (\<forall>ys. f (used @ ys) = Inr (res, ys))
           \<and> (\<forall>p others. used = p @ others \<and> others \<noteq> [] \<longrightarrow> f p = Inl IndexError)))"

lemma positionalI:
  assumes "\<And>val res rest. f val = Inr (res, rest) \<Longrightarrow>
        \<exists>used. val = used @ rest
           \<and> (\<forall>ys. f (used @ ys) = Inr (res, ys))
           \<and> (\<forall>p others. used = p @ others \<and> others \<noteq> [] \<longrightarrow> f p = Inl IndexError)"
  shows "positional f"
  using assms unfolding positional_def by blast

lemma positionalD:
  assumes "positional f" "f val = Inr (res, rest)"
  obtains used where "val = used @ rest" "\<And>ys. f (used @ ys) = Inr (res, ys)"
    "\<And>p others. used = p @ others \<Longrightarrow> others \<noteq> [] \<Longrightarrow> f p = Inl IndexError"
  using assms unfolding positional_def by blast

lemma positional_return [simp]: "positional (\<lambda>val. Inr (c, val))"
  by (rule positionalI) auto

lemma positional_raise [simp]: "positional (\<lambda>val. Inl e)"
  by (rule positionalI) simp

lemma positional_pop0 [simp]: "positional pop0"
proof (rule positionalI)
  fix val res rest
  assume "pop0 val = Inr (res, rest)"
  then have v: "val = [res] @ rest" by (cases val) auto
  have "\<forall>p others. [res] = p @ others \<and> others \<noteq> [] \<longrightarrow> pop0 p = Inl IndexError"
    by (auto simp: Cons_eq_append_conv)
  then show "\<exists>used. val = used @ rest \<and> (\<forall>ys. pop0 (used @ ys) = Inr (res, ys))
      \<and> (\<forall>p others. used = p @ others \<and> others \<noteq> [] \<longrightarrow> pop0 p = Inl IndexError)"
    using v by (intro exI [of _ "[res]"]) simp
qed

lemma positional_bind:
  assumes f: "positional f" and g: "\<And>x. positional (g x)"
  shows "positional (\<lambda>val. andthen (f val) (\<lambda>(x, val'). g x val'))"
proof (rule positionalI)
  fix val res rest
  assume a: "andthen (f val) (\<lambda>(x, val'). g x val') = Inr (res, rest)"
  then obtain x r1 where f1: "f val = Inr (x, r1)" and g1: "g x r1 = Inr (res, rest)"
    by (cases "f val") (auto split: prod.splits)
  from positionalD [OF f f1] obtain u1 where
    u1: "val = u1 @ r1" "\<And>ys. f (u1 @ ys) = Inr (x, ys)"
      "\<And>p others. u1 = p @ others \<Longrightarrow> others \<noteq> [] \<Longrightarrow> f p = Inl IndexError"
    by blast
  from positionalD [OF g g1] obtain u2 where
    u2: "r1 = u2 @ rest" "\<And>ys. g x (u2 @ ys) = Inr (res, ys)"
      "\<And>p others. u2 = p @ others \<Longrightarrow> others \<noteq> [] \<Longrightarrow> g x p = Inl IndexError"
    by blast
  have v: "val = (u1 @ u2) @ rest" using u1(1) u2(1) by simp
  have ext: "\<forall>ys. andthen (f ((u1 @ u2) @ ys)) (\<lambda>(x, val'). g x val') = Inr (res, ys)"
    using u1(2) [of "u2 @ _"] u2(2) by simp
  have short: "\<forall>p others. u1 @ u2 = p @ others \<and> others \<noteq> [] \<longrightarrow>
      andthen (f p) (\<lambda>(x, val'). g x val') = Inl IndexError"
  proof (intro allI impI)
    fix p others
    assume h: "u1 @ u2 = p @ others \<and> others \<noteq> []"
    then obtain us where us: "(u1 = p @ us \<and> us @ u2 = others) \<or> (u1 @ us = p \<and> u2 = us @ others)"
      by (auto simp: append_eq_append_conv2)
    have "(\<exists>q. u1 = p @ q \<and> q \<noteq> []) \<or> (\<exists>q. p = u1 @ q \<and> u2 = q @ others)"
    proof (cases "us = []")
      case True
      then show ?thesis using us by auto
    next
      case False
      then show ?thesis using us by auto
    qed
    then consider q where "u1 = p @ q" "q \<noteq> []" | q where "p = u1 @ q" "u2 = q @ others"
      by blast
    then show "andthen (f p) (\<lambda>(x, val'). g x val') = Inl IndexError"
    proof cases
      case 1
      then show ?thesis using u1(3) by simp
    next
      case 2
      have "f p = Inr (x, q)" using u1(2) [of q] 2(1) by simp
      moreover have "g x q = Inl IndexError" using u2(3) [OF 2(2)] h by simp
      ultimately show ?thesis by simp
    qed
  qed
  show "\<exists>used. val = used @ rest
      \<and> (\<forall>ys. andthen (f (used @ ys)) (\<lambda>(x, val'). g x val') = Inr (res, ys))
      \<and> (\<forall>p others. used = p @ others \<and> others \<noteq> [] \<longrightarrow>
            andthen (f p) (\<lambda>(x, val'). g x val') = Inl IndexError)"
    using v ext short by blast
qed

lemma positional_pure_bind:
  assumes "\<And>y. positional (g y)"
  shows "positional (\<lambda>val. andthen r (\<lambda>y. g y val))"
  using assms by (cases r) simp_all

lemma positional_if:
  "positional f \<Longrightarrow> positional g \<Longrightarrow> positional (\<lambda>val. if c then f val else g val)"
  by (cases c) simp_all


definition positional_stmt :: "(rule_state \<Rightarrow> error + rule_state) \<Rightarrow> bool" where
  "positional_stmt s = (\<forall>obj. positional (\<lambda>val. s (obj, val)))"

lemma positional_set_field [simp]: "positional_stmt (set_field key f)"
  unfolding positional_stmt_def
proof
  fix obj
  have "positional (\<lambda>val. andthen (pop0 val)
          (\<lambda>(x, val'). andthen (f x) (\<lambda>y. Inr (dict_set obj (PyStr key) y, val'))))"
    by (rule positional_bind [OF positional_pop0]) (rule positional_pure_bind, rule positional_return)
  then show "positional (\<lambda>val. set_field key f (obj, val))" by (simp add: set_field_def)
qed

lemma positional_fields [simp]:
  "positional_stmt (pop_field key)"
  "positional_stmt (position_field key)"
  "positional_stmt (time_field clock key)"
  by (simp_all add: pop_field_def position_field_def time_field_def)

lemma positional_pop_n: "positional (pop_n f n)"
proof (induction n)
  case 0
  have "pop_n f 0 = (\<lambda>val. Inr ([], val))" by (rule ext) simp
  then show ?case by simp
next
  case (Suc n)
  have h: "\<And>y. positional (\<lambda>val'. andthen (pop_n f n val') (\<lambda>(ys, val''). Inr (y # ys, val'')))"
    by (rule positional_bind [OF Suc.IH]) (rule positional_return)
  have g: "\<And>x. positional (\<lambda>val'. andthen (f x)
             (\<lambda>y. andthen (pop_n f n val') (\<lambda>(ys, val''). Inr (y # ys, val''))))"
    by (rule positional_pure_bind) (rule h)
  have "positional (\<lambda>val. andthen (pop0 val) (\<lambda>(x, val'). andthen (f x)
             (\<lambda>y. andthen (pop_n f n val') (\<lambda>(ys, val''). Inr (y # ys, val'')))))"
    by (rule positional_bind [OF positional_pop0]) (rule g)
  moreover have "pop_n f (Suc n) = (\<lambda>val. andthen (pop0 val) (\<lambda>(x, val'). andthen (f x)
             (\<lambda>y. andthen (pop_n f n val') (\<lambda>(ys, val''). Inr (y # ys, val'')))))"
    by (rule ext) simp
  ultimately show ?case by simp
qed

lemma positional_pop_list: "positional (pop_list f)"
proof -
  have "positional (\<lambda>val. andthen (pop0 val) (\<lambda>(cnt, val'). andthen (py_range cnt) (\<lambda>n. pop_n f n val')))"
    by (rule positional_bind [OF positional_pop0]) (rule positional_pure_bind, rule positional_pop_n)
  moreover have "pop_list f = (\<lambda>val. andthen (pop0 val) (\<lambda>(cnt, val'). andthen (py_range cnt) (\<lambda>n. pop_n f n val')))"
    by (rule ext) (simp add: pop_list_def)
  ultimately show ?thesis by simp
qed

lemma positional_list_rule: "positional (list_rule f)"
proof -
  have "positional (\<lambda>val. andthen (pop_list f val) (\<lambda>(xs, val'). Inr (PyList xs, val')))"
    by (rule positional_bind [OF positional_pop_list]) (rule positional_return)
  moreover have "list_rule f = (\<lambda>val. andthen (pop_list f val) (\<lambda>(xs, val'). Inr (PyList xs, val')))"
    by (rule ext) (simp add: list_rule_def)
  ultimately show ?thesis by simp
qed

lemma positional_list_field [simp]: "positional_stmt (list_field key f)"
  unfolding positional_stmt_def
proof
  fix obj
  have "positional (\<lambda>val. andthen (pop_list f val)
          (\<lambda>(xs, val'). Inr (dict_set obj (PyStr key) (PyList xs), val')))"
    by (rule positional_bind [OF positional_pop_list]) (rule positional_return)
  then show "positional (\<lambda>val. list_field key f (obj, val))" by (simp add: list_field_def)
qed

lemma positional_key_value_pairs: "positional (\<lambda>val. key_value_pairs n (obj, val))"
proof (induction n arbitrary: obj)
  case 0
  then show ?case by simp
next
  case (Suc n)
  have g: "\<And>k. positional (\<lambda>val'. andthen (pop0 val')
             (\<lambda>(v, val''). andthen (setitem obj k v) (\<lambda>obj'. key_value_pairs n (obj', val''))))"
    by (rule positional_bind [OF positional_pop0]) (rule positional_pure_bind, rule Suc.IH)
  have "positional (\<lambda>val. andthen (pop0 val) (\<lambda>(k, val'). andthen (pop0 val')
             (\<lambda>(v, val''). andthen (setitem obj k v) (\<lambda>obj'. key_value_pairs n (obj', val'')))))"
    by (rule positional_bind [OF positional_pop0]) (rule g)
  then show ?case by simp
qed

lemma positional_key_value_map [simp]: "positional_stmt key_value_map"
  unfolding positional_stmt_def
proof
  fix obj
  have "positional (\<lambda>val. andthen (pop0 val)
          (\<lambda>(cnt, val'). andthen (py_range cnt) (\<lambda>n. key_value_pairs n (obj, val'))))"
    by (rule positional_bind [OF positional_pop0])
       (rule positional_pure_bind, rule positional_key_value_pairs)
  then show "positional (\<lambda>val. key_value_map (obj, val))" by (simp add: key_value_map_def)
qed

lemma positional_annotation_group: "positional (\<lambda>val. annotation_group (obj, val))"
proof -
  let ?body = "\<lambda>cls val'. andthen (pop0 val') (\<lambda>(tree, val'').
              andthen (py_getitem_str ''saved.avl.interval.tree'' tree) (\<lambda>entries.
              andthen (py_iter entries) (\<lambda>annotations.
              andthen (unwrap_annotations cls annotations) (\<lambda>unwrapped.
              Inr (dict_set obj (PyStr cls) (PyList unwrapped), val'')))))"
  have b: "\<And>cls. positional (?body cls)"
    by (rule positional_bind [OF positional_pop0])
       (intro positional_pure_bind positional_return)
  let ?g = "\<lambda>annotation_type val'.
          if \<not> hashable annotation_type then Inl TypeError
          else case dict_get ANNOT_CLASS_NAMES annotation_type of
            None \<Rightarrow> Inl (raise_d UnknownAnnotationType annotation_type)
          | Some annot_class_name \<Rightarrow> ?body annot_class_name val'"
  have g: "\<And>x. positional (?g x)"
  proof -
    fix x
    show "positional (?g x)"
    proof (cases "hashable x")
      case False
      then show ?thesis by simp
    next
      case True
      show ?thesis
      proof (cases "dict_get ANNOT_CLASS_NAMES x")
        case None
        then show ?thesis using True by simp
      next
        case (Some cls)
        then show ?thesis using True b [of cls] by simp
      qed
    qed
  qed
  have "positional (\<lambda>val. andthen (pop0 val) (\<lambda>(x, val'). ?g x val'))"
    by (rule positional_bind [OF positional_pop0]) (rule g)
  then show ?thesis by (simp add: annotation_group_def)
qed

lemma positional_annotation_groups: "positional (\<lambda>val. annotation_groups n (obj, val))"
proof (induction n arbitrary: obj)
  case 0
  then show ?case by simp
next
  case (Suc n)
  have "positional (\<lambda>val. andthen (annotation_group (obj, val))
          (\<lambda>(obj', val'). annotation_groups n (obj', val')))"
    by (rule positional_bind [OF positional_annotation_group]) (rule Suc.IH)
  then show ?case by simp
qed

lemma positional_annotation_cache [simp]: "positional_stmt annotation_cache"
  unfolding positional_stmt_def
proof
  fix obj
  have "positional (\<lambda>val. andthen (pop0 val)
          (\<lambda>(cnt, val'). andthen (py_range cnt) (\<lambda>n. annotation_groups n (obj, val'))))"
    by (rule positional_bind [OF positional_pop0])
       (rule positional_pure_bind, rule positional_annotation_groups)
  then show "positional (\<lambda>val. annotation_cache (obj, val))" by (simp add: annotation_cache_def)
qed

lemma positional_do_stmts:
  "list_all positional_stmt stmts \<Longrightarrow> positional_stmt (do_stmts stmts)"
proof (induction stmts)
  case Nil
  then show ?case by (simp add: positional_stmt_def)
next
  case (Cons f fs)
  then have f: "\<And>obj. positional (\<lambda>val. f (obj, val))"
    and fs: "\<And>obj. positional (\<lambda>val. do_stmts fs (obj, val))"
    by (simp_all add: positional_stmt_def)
  show ?case
    unfolding positional_stmt_def
  proof
    fix obj
    have "positional (\<lambda>val. andthen (f (obj, val)) (\<lambda>(obj', val'). do_stmts fs (obj', val')))"
      by (rule positional_bind [OF f]) (rule fs)
    then show "positional (\<lambda>val. do_stmts (f # fs) (obj, val))" by simp
  qed
qed

lemma positional_dict_rule:
  assumes "list_all positional_stmt stmts"
  shows "positional (dict_rule stmts)"
proof -
  have d: "positional (\<lambda>val. do_stmts stmts ([], val))"
    using positional_do_stmts [OF assms] by (simp add: positional_stmt_def)
  have "positional (\<lambda>val. andthen (do_stmts stmts ([], val)) (\<lambda>(obj, val'). Inr (PyDict obj, val')))"
    by (rule positional_bind [OF d]) (rule positional_return)
  moreover have "dict_rule stmts = (\<lambda>val. andthen (do_stmts stmts ([], val)) (\<lambda>(obj, val'). Inr (PyDict obj, val')))"
    by (rule ext) (simp add: dict_rule_def)
  ultimately show ?thesis by simp
qed

lemma positional_lpr_stmt [simp]: "positional_stmt (lpr_stmt clock)"
  unfolding positional_stmt_def
proof
  fix obj
  let ?versioned = "\<lambda>version val'. andthen (py_le_int version 2) (\<lambda>le.
                if le then
                  do_stmts [position_field ''position'', time_field clock ''time''] (obj, val')
                else Inl (raise_d UnknownLprVersion version))"
  let ?g = "\<lambda>version val'. case version of
            PyStr _ \<Rightarrow> Inr (dict_set obj (PyStr ''position'') (decode_position version), val')
          | _ \<Rightarrow> ?versioned version val'"
  have "positional_stmt (do_stmts [position_field ''position'', time_field clock ''time''])"
    by (rule positional_do_stmts) simp
  then have d: "positional (\<lambda>val. do_stmts [position_field ''position'', time_field clock ''time''] (obj, val))"
    unfolding positional_stmt_def by (rule spec)
  have v: "\<And>version. positional (?versioned version)"
  proof -
    fix version
    have "\<And>le. positional (\<lambda>val'. if le then
                  do_stmts [position_field ''position'', time_field clock ''time''] (obj, val')
                else Inl (raise_d UnknownLprVersion version))"
      by (rule positional_if [OF d positional_raise])
    then show "positional (?versioned version)" by (rule positional_pure_bind)
  qed
  have g: "\<And>x. positional (?g x)"
  proof -
    fix x
    show "positional (?g x)" using v [of x] by (cases x) simp_all
  qed
  have "positional (\<lambda>val. andthen (pop0 val) (\<lambda>(x, val'). ?g x val'))"
    by (rule positional_bind [OF positional_pop0]) (rule g)
  then show "positional (\<lambda>val. lpr_stmt clock (obj, val))" by (simp add: lpr_stmt_def)
qed

lemma positional_erl_rule: "positional erl_rule"
proof -
  have "positional (\<lambda>val. andthen (pop0 val) (\<lambda>(x, val'). Inr (decode_position x, val')))"
    by (rule positional_bind [OF positional_pop0]) (rule positional_return)
  moreover have "erl_rule = (\<lambda>val. andthen (pop0 val) (\<lambda>(x, val'). Inr (decode_position x, val')))"
    by (rule ext) (simp add: erl_rule_def)
  ultimately show ?thesis by simp
qed

lemma positional_single_value: "positional single_value"
proof -
  have "single_value = pop0" by (rule ext) (simp add: single_value_def)
  then show ?thesis by simp
qed

lemma if_chain_positional:
  "(if c then Some a else b) = Some r \<Longrightarrow> (c \<Longrightarrow> positional a) \<Longrightarrow>
   (\<not> c \<Longrightarrow> b = Some r \<Longrightarrow> positional r) \<Longrightarrow> positional r"
  by (cases c) simp_all

lemma positional_fpr_stmts: "list_all positional_stmt (fpr_stmts clock)"
  by (simp add: fpr_stmts_def)

lemma positional_annotation_stmts: "list_all positional_stmt (annotation_stmts clock name)"
  by (simp add: annotation_stmts_def)

lemma structure_rule_positional:
  assumes "structure_rule clock name = Some rule" and "name \<noteq> ''font.prefs''"
  shows "positional rule"
  apply (insert assms)
  apply (unfold structure_rule_def)
  apply (elim if_chain_positional;
      ((erule notE, assumption)
       | rule positional_single_value positional_erl_rule positional_list_rule
       | (rule positional_dict_rule,
          simp (no_asm) add: positional_annotation_stmts positional_fpr_stmts)
       | simp (no_asm_use) only: option.distinct))
  done

lemma if_chain_empty:
  "(if c then Some a else b) = Some r \<Longrightarrow> a [] = Inl IndexError \<Longrightarrow>
   (b = Some r \<Longrightarrow> r [] = Inl IndexError) \<Longrightarrow> r [] = Inl IndexError"
  by (cases c) simp_all

lemma structure_rule_empty:
  assumes "structure_rule clock name = Some rule"
  shows "rule [] = Inl IndexError"
  apply (insert assms)
  apply (unfold structure_rule_def)
  apply (elim if_chain_empty;
      (simp (no_asm) add: single_value_def dict_rule_def list_rule_def erl_rule_def pop_list_def
          key_value_map_def lpr_stmt_def fpr_stmts_def annotation_cache_def annotation_stmts_def
          pop_field_def position_field_def set_field_def list_field_def
       | simp (no_asm_use) only: option.distinct))
  done

lemma known_has_rule:
  "name \<in> set known_structures \<Longrightarrow> \<exists>rule. structure_rule clock name = Some rule"
  using structure_rule_None_iff [of clock name] by (cases "structure_rule clock name") simp_all

lemma decode_object_excess:
  assumes "structure_rule clock name = Some rule" "rule val = Inr (obj, rest)" "rest \<noteq> []"
  shows "decode_object clock name val lg = (Inl (ExcessValues name rest), lg)"
  using assms(2,3) by (simp add: decode_object_known [OF assms(1)])

lemma decode_object_success:
  assumes "structure_rule clock name = Some rule" "fst (decode_object clock name val lg) = Inr r"
  shows "\<exists>obj. rule val = Inr (obj, []) \<and> r = PyDict [(PyStr name, obj)]"
  using assms(2)
  by (cases "rule val")
     (auto simp: decode_object_known [OF assms(1)] split: if_splits prod.splits)

lemma decode_object_missing:
  assumes "structure_rule clock name = Some rule" "rule val = Inl e"
  shows "decode_object clock name val lg = (Inl e, lg)"
  using assms(2) by (simp add: decode_object_known [OF assms(1)])

lemma decode_object_one_short_one_extra:
  assumes r: "structure_rule clock name = Some rule" and nf: "name \<noteq> ''font.prefs''"
    and ok: "\<not> isl (fst (decode_object clock name val lg))"
  shows "(\<forall>p others. val = p @ others \<and> others \<noteq> [] \<longrightarrow>
            decode_object clock name p lg = (Inl IndexError, lg))
       \<and> (\<forall>extra. extra \<noteq> [] \<longrightarrow>
            decode_object clock name (val @ extra) lg = (Inl (ExcessValues name extra), lg))"
proof -
  obtain v where v: "fst (decode_object clock name val lg) = Inr v"
    using ok by (cases "fst (decode_object clock name val lg)") simp_all
  from decode_object_success [OF r v] obtain obj where o: "rule val = Inr (obj, [])" by blast
  have pos: "positional rule" by (rule structure_rule_positional [OF r nf])
  from positionalD [OF pos o] obtain used where
    u: "val = used @ []" "\<And>ys. rule (used @ ys) = Inr (obj, ys)"
       "\<And>p others. used = p @ others \<Longrightarrow> others \<noteq> [] \<Longrightarrow> rule p = Inl IndexError"
    by blast
  have uv: "used = val" using u(1) by simp
  have a: "\<forall>p others. val = p @ others \<and> others \<noteq> [] \<longrightarrow>
            decode_object clock name p lg = (Inl IndexError, lg)"
    using u(3) uv decode_object_missing [OF r] by blast
  have b: "\<forall>extra. extra \<noteq> [] \<longrightarrow>
            decode_object clock name (val @ extra) lg = (Inl (ExcessValues name extra), lg)"
    using u(2) uv decode_object_excess [OF r] by blast
  show ?thesis using a b by (rule conjI)
qed

lemma do_stmts_append: "do_stmts (xs @ ys) s = andthen (do_stmts xs s) (do_stmts ys)"
  by (induction xs arbitrary: s) (simp_all add: andthen_def split: sum.splits)

lemma do_stmts_pop_fields:
  "do_stmts (map pop_field ks) (obj, val) =
     (if length val < length ks then Inl IndexError
      else Inr (foldl (\<lambda>d (k, v). dict_set d (PyStr k) v) obj (zip ks val), drop (length ks) val))"
proof (induction ks arbitrary: obj val)
  case Nil
  then show ?case by simp
next
  case (Cons k ks)
  show ?case
  proof (cases val)
    case Nil
    then show ?thesis by (simp add: pop_field_def set_field_def)
  next
    case (Cons x xs)
    then show ?thesis
      using Cons.IH [of "dict_set obj (PyStr k) x" xs] by (simp add: pop_field_Cons)
  qed
qed

lemma do_stmts_optional_fields:
  "do_stmts (map optional_field ks) (obj, val) =
     Inr (foldl (\<lambda>d (k, v). dict_set d (PyStr k) v) obj (zip ks val), drop (length ks) val)"
proof (induction ks arbitrary: obj val)
  case Nil
  then show ?case by simp
next
  case (Cons k ks)
  show ?case
  proof (cases val)
    case Nil
    then show ?thesis using Cons.IH [of obj "[]"] by (simp add: optional_field_def)
  next
    case (Cons x xs)
    then show ?thesis
      using Cons.IH [of "dict_set obj (PyStr k) x" xs] by (simp add: optional_field_def pop_field_Cons)
  qed
qed

lemma dict_set_fresh:
  "PyStr k \<notin> fst ` set obj \<Longrightarrow> dict_set obj (PyStr k) v = obj @ [(PyStr k, v)]"
  by (induction obj) auto

lemma foldl_dict_set_fresh:
  "distinct ks \<Longrightarrow> PyStr ` set ks \<inter> fst ` set obj = {} \<Longrightarrow>
   foldl (\<lambda>d (k, v). dict_set d (PyStr k) v) obj (zip ks vs) = obj @ zip (map PyStr ks) vs"
proof (induction ks arbitrary: obj vs)
  case Nil
  then show ?case by simp
next
  case (Cons k ks)
  show ?case
  proof (cases vs)
    case Nil
    then show ?thesis by simp
  next
    case (Cons v vs')
    have f: "PyStr k \<notin> fst ` set obj" using Cons.prems by auto
    have d: "distinct ks" using Cons.prems by simp
    have i: "PyStr ` set ks \<inter> fst ` set (obj @ [(PyStr k, v)]) = {}"
      using Cons.prems by auto
    show ?thesis
      using Cons.IH [OF d i, of vs'] by (simp add: Cons dict_set_fresh [OF f])
  qed
qed

lemma zip_take_length: "zip xs (take (length xs) zs) = zip xs zs"
proof (induction xs arbitrary: zs)
  case Nil
  then show ?case by simp
next
  case (Cons x xs)
  then show ?case by (cases zs) simp_all
qed

lemma structure_rule_font_prefs:
  "structure_rule clock ''font.prefs'' =
     Some (dict_rule (map pop_field font_prefs_required @ map optional_field font_prefs_optional))"
  by (simp add: structure_rule_def ANNOT_CLASS_NAMES_def font_prefs_required_def font_prefs_optional_def)

lemma font_prefs_rule:
  "dict_rule (map pop_field font_prefs_required @ map optional_field font_prefs_optional) val =
     (if length val < 9 then Inl IndexError
      else Inr (PyDict (zip (map PyStr (font_prefs_required @ font_prefs_optional)) val), drop 16 val))"
proof (cases "length val < 9")
  case True
  have "length font_prefs_required = 9" by (simp add: font_prefs_required_def)
  then show ?thesis
    using True by (simp add: dict_rule_def do_stmts_append do_stmts_pop_fields)
next
  case False
  have lr: "length font_prefs_required = 9" and lo: "length font_prefs_optional = 7"
    by (simp_all add: font_prefs_required_def font_prefs_optional_def)
  have dist: "distinct (font_prefs_required @ font_prefs_optional)"
    by (simp add: font_prefs_required_def font_prefs_optional_def)
  let ?f = "\<lambda>d (k, v). dict_set d (PyStr k) v"
  have z: "zip (font_prefs_required @ font_prefs_optional) val =
           zip font_prefs_required val @ zip font_prefs_optional (drop 9 val)"
    using zip_take_length [of font_prefs_required val] lr by (simp add: zip_append1)
  have "do_stmts (map pop_field font_prefs_required @ map optional_field font_prefs_optional) ([], val)
        = Inr (foldl ?f (foldl ?f [] (zip font_prefs_required val))
                 (zip font_prefs_optional (drop 9 val)), drop 7 (drop 9 val))"
    using False by (simp add: do_stmts_append do_stmts_pop_fields do_stmts_optional_fields lr lo)
  also have "foldl ?f (foldl ?f [] (zip font_prefs_required val)) (zip font_prefs_optional (drop 9 val))
        = foldl ?f [] (zip (font_prefs_required @ font_prefs_optional) val)"
    by (simp add: z)
  also have "\<dots> = zip (map PyStr (font_prefs_required @ font_prefs_optional)) val"
    using foldl_dict_set_fresh [OF dist, of "[]" val] by simp
  finally show ?thesis using False by (simp add: dict_rule_def)
qed

lemma font_prefs_layout:
  "decode_object clock ''font.prefs'' val lg =
     (if length val < 9 then (Inl IndexError, lg)
      else if 16 < length val then (Inl (ExcessValues ''font.prefs'' (drop 16 val)), lg)
      else (Inr (PyDict [(PyStr ''font.prefs'',
                   PyDict (zip (map PyStr (font_prefs_required @ font_prefs_optional)) val))]), lg))"
  by (simp add: decode_object_known [OF structure_rule_font_prefs] font_prefs_rule)

text \<open>
  C1. For every name that the chain of \<^verbatim>\<open>decode_object\<close> knows there is a rule, and the
  decode of the object goes by what the rule does with the children. If the rule returns
  and leaves at least one child, the decode fails with the excess values for that name.
  If the rule raises, the decode fails with the same exception; a \<^verbatim>\<open>pop\<close> that finds no
  child raises \<^verbatim>\<open>IndexError\<close>, and with no child at all every rule ends so. The decode
  succeeds only when the rule returns with no child left. For every name but
  \<^verbatim>\<open>font.prefs\<close>, when the decode of some children succeeds, the decode of any proper
  prefix of them fails with \<^verbatim>\<open>IndexError\<close>, and the decode of the children followed by
  further ones fails with exactly those as excess values. \<^verbatim>\<open>font.prefs\<close> takes from 9 to
  16 children: fewer end with \<^verbatim>\<open>IndexError\<close>, and those after the sixteenth are excess
  values.
\<close>

theorem children_consumed_exactly:
  assumes "name \<in> set known_structures"
  shows "\<exists>rule. structure_rule clock name = Some rule
     \<and> (\<forall>obj rest. rule val = Inr (obj, rest) \<and> rest \<noteq> [] \<longrightarrow>
          decode_object clock name val lg = (Inl (ExcessValues name rest), lg))
     \<and> (\<forall>e. rule val = Inl e \<longrightarrow> decode_object clock name val lg = (Inl e, lg))
     \<and> (\<forall>r. fst (decode_object clock name val lg) = Inr r \<longrightarrow>
          (\<exists>obj. rule val = Inr (obj, []) \<and> r = PyDict [(PyStr name, obj)]))
     \<and> decode_object clock name [] lg = (Inl IndexError, lg)
     \<and> (name \<noteq> ''font.prefs'' \<and> \<not> isl (fst (decode_object clock name val lg)) \<longrightarrow>
          (\<forall>p others. val = p @ others \<and> others \<noteq> [] \<longrightarrow>
             decode_object clock name p lg = (Inl IndexError, lg))
          \<and> (\<forall>extra. extra \<noteq> [] \<longrightarrow>
             decode_object clock name (val @ extra) lg = (Inl (ExcessValues name extra), lg)))
     \<and> (name = ''font.prefs'' \<longrightarrow>
          decode_object clock name val lg =
            (if length val < 9 then (Inl IndexError, lg)
             else if 16 < length val then (Inl (ExcessValues ''font.prefs'' (drop 16 val)), lg)
             else (Inr (PyDict [(PyStr ''font.prefs'',
                   PyDict (zip (map PyStr (font_prefs_required @ font_prefs_optional)) val))]), lg)))"
proof -
  from known_has_rule [OF assms] obtain rule where r: "structure_rule clock name = Some rule"
    by blast
  have a: "\<forall>obj rest. rule val = Inr (obj, rest) \<and> rest \<noteq> [] \<longrightarrow>
          decode_object clock name val lg = (Inl (ExcessValues name rest), lg)"
    using decode_object_excess [OF r] by blast
  have b: "\<forall>e. rule val = Inl e \<longrightarrow> decode_object clock name val lg = (Inl e, lg)"
    using decode_object_missing [OF r] by blast
  have c: "\<forall>r. fst (decode_object clock name val lg) = Inr r \<longrightarrow>
          (\<exists>obj. rule val = Inr (obj, []) \<and> r = PyDict [(PyStr name, obj)])"
    using decode_object_success [OF r] by blast
  have d: "decode_object clock name [] lg = (Inl IndexError, lg)"
    by (rule decode_object_missing [OF r structure_rule_empty [OF r]])
  have e: "name \<noteq> ''font.prefs'' \<and> \<not> isl (fst (decode_object clock name val lg)) \<longrightarrow>
          (\<forall>p others. val = p @ others \<and> others \<noteq> [] \<longrightarrow>
             decode_object clock name p lg = (Inl IndexError, lg))
          \<and> (\<forall>extra. extra \<noteq> [] \<longrightarrow>
             decode_object clock name (val @ extra) lg = (Inl (ExcessValues name extra), lg))"
  proof
    assume h: "name \<noteq> ''font.prefs'' \<and> \<not> isl (fst (decode_object clock name val lg))"
    show "(\<forall>p others. val = p @ others \<and> others \<noteq> [] \<longrightarrow>
             decode_object clock name p lg = (Inl IndexError, lg))
          \<and> (\<forall>extra. extra \<noteq> [] \<longrightarrow>
             decode_object clock name (val @ extra) lg = (Inl (ExcessValues name extra), lg))"
      by (rule decode_object_one_short_one_extra [OF r conjunct1 [OF h] conjunct2 [OF h]])
  qed
  have f: "name = ''font.prefs'' \<longrightarrow>
          decode_object clock name val lg =
            (if length val < 9 then (Inl IndexError, lg)
             else if 16 < length val then (Inl (ExcessValues ''font.prefs'' (drop 16 val)), lg)
             else (Inr (PyDict [(PyStr ''font.prefs'',
                   PyDict (zip (map PyStr (font_prefs_required @ font_prefs_optional)) val))]), lg))"
  proof
    assume "name = ''font.prefs''"
    then show "decode_object clock name val lg =
            (if length val < 9 then (Inl IndexError, lg)
             else if 16 < length val then (Inl (ExcessValues ''font.prefs'' (drop 16 val)), lg)
             else (Inr (PyDict [(PyStr ''font.prefs'',
                   PyDict (zip (map PyStr (font_prefs_required @ font_prefs_optional)) val))]), lg))"
      by (simp only: font_prefs_layout)
  qed
  show ?thesis
    by (rule exI [of _ rule]) (intro conjI r a b c d e f)
qed

theorem children_consumed_exactly_witness:
  "''fixed.layout.data'' \<in> set known_structures
   \<and> decode_object fixed_clock ''fixed.layout.data'' [PyBool True, PyBool False, PyBool True] []
       = (Inr (PyDict [(PyStr ''fixed.layout.data'',
            PyDict [(PyStr ''unknown1'', PyBool True), (PyStr ''unknown2'', PyBool False),
                    (PyStr ''unknown3'', PyBool True)])]), [])
   \<and> decode_object fixed_clock ''fixed.layout.data'' [PyBool True, PyBool False] []
       = (Inl IndexError, [])
   \<and> decode_object fixed_clock ''fixed.layout.data''
         ([PyBool True, PyBool False, PyBool True] @ [PyInt 4]) []
       = (Inl (ExcessValues ''fixed.layout.data'' [PyInt 4]), [])"
proof -
  let ?val = "[PyBool True, PyBool False, PyBool True]"
  have k: "''fixed.layout.data'' \<in> set known_structures"
    by (simp add: known_structures_def)
  have v: "decode_object fixed_clock ''fixed.layout.data'' ?val []
       = (Inr (PyDict [(PyStr ''fixed.layout.data'',
            PyDict [(PyStr ''unknown1'', PyBool True), (PyStr ''unknown2'', PyBool False),
                    (PyStr ''unknown3'', PyBool True)])]), [])"
    by code_simp
  have nf: "''fixed.layout.data'' \<noteq> ''font.prefs''" by simp
  have ok: "\<not> isl (fst (decode_object fixed_clock ''fixed.layout.data'' ?val []))"
    by (simp only: v fst_conv sum.disc simp_thms)
  have s: "''fixed.layout.data'' \<noteq> ''font.prefs''
         \<and> \<not> isl (fst (decode_object fixed_clock ''fixed.layout.data'' ?val [])) \<longrightarrow>
          (\<forall>p others. ?val = p @ others \<and> others \<noteq> [] \<longrightarrow>
             decode_object fixed_clock ''fixed.layout.data'' p [] = (Inl IndexError, []))
          \<and> (\<forall>extra. extra \<noteq> [] \<longrightarrow>
             decode_object fixed_clock ''fixed.layout.data'' (?val @ extra) []
               = (Inl (ExcessValues ''fixed.layout.data'' extra), []))"
    using children_consumed_exactly [OF k, of fixed_clock ?val "[]"]
    by (elim exE conjE)
  have both: "(\<forall>p others. ?val = p @ others \<and> others \<noteq> [] \<longrightarrow>
             decode_object fixed_clock ''fixed.layout.data'' p [] = (Inl IndexError, []))
          \<and> (\<forall>extra. extra \<noteq> [] \<longrightarrow>
             decode_object fixed_clock ''fixed.layout.data'' (?val @ extra) []
               = (Inl (ExcessValues ''fixed.layout.data'' extra), []))"
    by (rule mp [OF s conjI [OF nf ok]])
  have s1: "decode_object fixed_clock ''fixed.layout.data'' [PyBool True, PyBool False] []
       = (Inl IndexError, [])"
  proof -
    have "?val = [PyBool True, PyBool False] @ [PyBool True] \<and> [PyBool True] \<noteq> []" by simp
    then show ?thesis using conjunct1 [OF both] by blast
  qed
  have l1: "decode_object fixed_clock ''fixed.layout.data'' (?val @ [PyInt 4]) []
       = (Inl (ExcessValues ''fixed.layout.data'' [PyInt 4]), [])"
  proof -
    have "[PyInt 4] \<noteq> []" by simp
    then show ?thesis using conjunct2 [OF both] by blast
  qed
  show ?thesis by (intro conjI k v s1 l1)
qed

text \<open>
  C1, the child that is not there. One child short, the decode of two different
  structures fails with the same \<^verbatim>\<open>IndexError\<close>: the exception of a missing child does
  not carry the name of the structure, while that of a child left over does.
\<close>

theorem missing_child_error_has_no_name:
  "decode_object fixed_clock ''fixed.layout.data'' [PyBool True, PyBool False] []
     = (Inl IndexError, [])
   \<and> decode_object fixed_clock ''page.history.record'' [PyStr ''AAAA:12''] []
     = (Inl IndexError, [])
   \<and> decode_object fixed_clock ''page.history.record''
        [PyStr ''AAAA:12'', PyInt 1609459200000, PyInt 4] []
     = (Inl (ExcessValues ''page.history.record'' [PyInt 4]), [])"
proof (intro conjI)
  show "decode_object fixed_clock ''fixed.layout.data'' [PyBool True, PyBool False] []
     = (Inl IndexError, [])"
    by code_simp
next
  show "decode_object fixed_clock ''page.history.record'' [PyStr ''AAAA:12''] []
     = (Inl IndexError, [])"
    by code_simp
next
  show "decode_object fixed_clock ''page.history.record''
        [PyStr ''AAAA:12'', PyInt 1609459200000, PyInt 4] []
     = (Inl (ExcessValues ''page.history.record'' [PyInt 4]), [])"
    by code_simp
qed

section \<open>Properties of deserialize\<close>

lemma deserialize_after_signature:
  assumes "krds_extract (PyInt (int (length SIGNATURE))) (self\<lparr>krds := Deserializer_init (data self)\<rparr>)
             = (Inr (PyBytes SIGNATURE), s1)"
      and "decode_next clock None s1 = (Inr first_value, s2)"
  shows "deserialize clock self =
     (if py_eq_int first_value 1 then deserialize_values clock s2
      else (Inl (FirstValue first_value), s2))"
  by (simp add: deserialize_def Let_def assms)

lemma signature_extracted:
  assumes "data self = SIGNATURE @ rest"
  shows "krds_extract (PyInt (int (length SIGNATURE))) (self\<lparr>krds := Deserializer_init (data self)\<rparr>)
           = (Inr (PyBytes SIGNATURE), self\<lparr>krds := \<lparr>buffer = data self, offset = 8\<rparr>\<rparr>)"
proof -
  let ?d = "Deserializer_init (data self)"
  have "extract_data (Some 8) None True ?d =
          (Inr (take (nat 8) (drop (nat (offset ?d)) (buffer ?d))), ?d\<lparr>offset := offset ?d + 8\<rparr>)"
    using extract_ok [of ?d 8 True]
    by (simp add: Deserializer_init_def len_Deserializer_def assms SIGNATURE_def)
  then have "extract_data (Some 8) None True ?d
          = (Inr SIGNATURE, \<lparr>buffer = data self, offset = 8\<rparr>)"
    by (simp add: Deserializer_init_def assms SIGNATURE_def)
  then show ?thesis
    by (simp add: krds_extract_def SIGNATURE_def)
qed

lemma int32_tagged_value:
  assumes "buffer (krds s) = pre @ 1 # b1 # b2 # b3 # b4 # rest" and "offset (krds s) = int (length pre)"
  shows "decode_next clock None s =
           (Inr (PyInt (be_sint [b1, b2, b3, b4])),
            s\<lparr>krds := (krds s)\<lparr>offset := int (length pre) + 5\<rparr>\<rparr>)"
proof -
  have tag: "krds_unpack Fmt_b True s = (Inr (PyInt 1), s\<lparr>krds := (krds s)\<lparr>offset := int (length pre) + 1\<rparr>\<rparr>)"
    by (simp add: krds_unpack_def unpack_def unpack_from_def assms be_sint_def be_uint_def)
  let ?s1 = "s\<lparr>krds := (krds s)\<lparr>offset := int (length pre) + 1\<rparr>\<rparr>"
  have val: "krds_unpack Fmt_l True ?s1 =
           (Inr (PyInt (be_sint [b1, b2, b3, b4])),
            s\<lparr>krds := (krds s)\<lparr>offset := int (length pre) + 5\<rparr>\<rparr>)"
    by (simp add: krds_unpack_def unpack_def unpack_from_def assms nat_add_distrib)
  show ?thesis
    by (subst decode_next.simps) (simp add: tag val)
qed

text \<open>
  C4, as the source has it. After a valid signature \<^verbatim>\<open>deserialize\<close> decodes one value,
  whatever its tag, and goes on with the count and the entries exactly when that value
  compares equal to 1; otherwise it fails with the message that shows the first value.
  When the value is tagged as a 32-bit integer this means: the decode goes on exactly
  when the integer is 1. An integer equals 1 only if it is 1, \<^verbatim>\<open>True\<close> equals 1, and no
  string does.
\<close>

theorem first_value_must_equal_one:
  "(krds_extract (PyInt (int (length SIGNATURE))) (self\<lparr>krds := Deserializer_init (data self)\<rparr>)
        = (Inr (PyBytes SIGNATURE), s1)
      \<and> decode_next clock None s1 = (Inr first_value, s2) \<longrightarrow>
      deserialize clock self =
        (if py_eq_int first_value 1 then deserialize_values clock s2
         else (Inl (FirstValue first_value), s2)))
   \<and> (data self = SIGNATURE @ 1 # b1 # b2 # b3 # b4 # rest \<longrightarrow>
      deserialize clock self =
        (if be_sint [b1, b2, b3, b4] = 1
         then deserialize_values clock (self\<lparr>krds := \<lparr>buffer = data self, offset = 13\<rparr>\<rparr>)
         else (Inl (FirstValue (PyInt (be_sint [b1, b2, b3, b4]))),
               self\<lparr>krds := \<lparr>buffer = data self, offset = 13\<rparr>\<rparr>)))
   \<and> py_eq_int (PyInt i) 1 = (i = 1)
   \<and> py_eq_int (PyBool True) 1
   \<and> \<not> py_eq_int (PyStr t) 1"
proof (intro conjI impI)
  assume "krds_extract (PyInt (int (length SIGNATURE))) (self\<lparr>krds := Deserializer_init (data self)\<rparr>)
        = (Inr (PyBytes SIGNATURE), s1)
      \<and> decode_next clock None s1 = (Inr first_value, s2)"
  then show "deserialize clock self =
        (if py_eq_int first_value 1 then deserialize_values clock s2
         else (Inl (FirstValue first_value), s2))"
    using deserialize_after_signature [of self s1 clock first_value s2] by blast
next
  assume d: "data self = SIGNATURE @ 1 # b1 # b2 # b3 # b4 # rest"
  let ?s1 = "self\<lparr>krds := \<lparr>buffer = data self, offset = 8\<rparr>\<rparr>"
  have sig: "krds_extract (PyInt (int (length SIGNATURE))) (self\<lparr>krds := Deserializer_init (data self)\<rparr>)
           = (Inr (PyBytes SIGNATURE), ?s1)"
    by (rule signature_extracted [OF d])
  have "decode_next clock None ?s1 =
           (Inr (PyInt (be_sint [b1, b2, b3, b4])),
            ?s1\<lparr>krds := (krds ?s1)\<lparr>offset := int (length SIGNATURE) + 5\<rparr>\<rparr>)"
    by (rule int32_tagged_value) (simp_all add: d SIGNATURE_def)
  then have nxt: "decode_next clock None ?s1 =
           (Inr (PyInt (be_sint [b1, b2, b3, b4])),
            self\<lparr>krds := \<lparr>buffer = data self, offset = 13\<rparr>\<rparr>)"
    by (simp add: SIGNATURE_def)
  show "deserialize clock self =
        (if be_sint [b1, b2, b3, b4] = 1
         then deserialize_values clock (self\<lparr>krds := \<lparr>buffer = data self, offset = 13\<rparr>\<rparr>)
         else (Inl (FirstValue (PyInt (be_sint [b1, b2, b3, b4]))),
               self\<lparr>krds := \<lparr>buffer = data self, offset = 13\<rparr>\<rparr>))"
    using deserialize_after_signature [OF sig nxt] by simp
next
  show "py_eq_int (PyInt i) 1 = (i = 1)" by simp
next
  show "py_eq_int (PyBool True) 1" by (simp add: py_eq_int_def)
next
  show "\<not> py_eq_int (PyStr t) 1" by (simp add: py_eq_int_def)
qed

theorem first_value_must_equal_one_witness:
  "fst (deserialize fixed_clock (KindleReaderDataStore_init [] (SIGNATURE @ [1, 0, 0, 0, 2])))
     = Inl (FirstValue (PyInt 2))"
proof -
  let ?self = "KindleReaderDataStore_init [] (SIGNATURE @ [1, 0, 0, 0, 2])"
  have d: "data ?self = SIGNATURE @ 1 # 0 # 0 # 0 # 2 # []"
    by (simp add: KindleReaderDataStore_init_def)
  have v: "be_sint [0, 0, 0, 2 :: byte] = 2"
    by (simp add: be_sint_def be_uint_def)
  have "deserialize fixed_clock ?self =
        (if be_sint [0, 0, 0, 2 :: byte] = 1
         then deserialize_values fixed_clock (?self\<lparr>krds := \<lparr>buffer = data ?self, offset = 13\<rparr>\<rparr>)
         else (Inl (FirstValue (PyInt (be_sint [0, 0, 0, 2 :: byte]))),
               ?self\<lparr>krds := \<lparr>buffer = data ?self, offset = 13\<rparr>\<rparr>))"
    using first_value_must_equal_one
      [of ?self "?self" fixed_clock PyNone "?self" 0 0 0 2 "[]" 0 "[]",
       THEN conjunct2, THEN conjunct1, THEN mp, OF d] .
  then show ?thesis by (simp add: v)
qed

text \<open>
  C4, as the claim has it, fails: the value after the signature need not carry the tag
  of a 32-bit integer. Here it is the boolean \<^verbatim>\<open>True\<close> (tag 0, byte 1); it is followed by
  the count 0, and the decode goes on and returns the empty mapping.
\<close>

theorem first_value_true_is_accepted:
  "fst (decode_next fixed_clock None
          ((KindleReaderDataStore_init [] (SIGNATURE @ [0, 1, 1, 0, 0, 0, 0]))
             \<lparr>krds := \<lparr>buffer = SIGNATURE @ [0, 1, 1, 0, 0, 0, 0], offset = 8\<rparr>\<rparr>))
     = Inr (PyBool True)
   \<and> fst (deserialize fixed_clock (KindleReaderDataStore_init [] (SIGNATURE @ [0, 1, 1, 0, 0, 0, 0])))
     = Inr (PyDict [])"
proof
  show "fst (decode_next fixed_clock None
          ((KindleReaderDataStore_init [] (SIGNATURE @ [0, 1, 1, 0, 0, 0, 0]))
             \<lparr>krds := \<lparr>buffer = SIGNATURE @ [0, 1, 1, 0, 0, 0, 0], offset = 8\<rparr>\<rparr>))
     = Inr (PyBool True)"
    by code_simp
next
  show "fst (deserialize fixed_clock (KindleReaderDataStore_init [] (SIGNATURE @ [0, 1, 1, 0, 0, 0, 0])))
     = Inr (PyDict [])"
    by code_simp
qed

lemma dict_get_named_items:
  "(dict_get (map named_item seen) (PyStr nm) \<noteq> None) = (nm \<in> set (map fst seen))"
  by (induction seen) (auto simp: named_item_def)

lemma dict_set_named_items:
  "nm \<notin> set (map fst seen) \<Longrightarrow>
   dict_set (map named_item seen) (PyStr nm) obj = map named_item (seen @ [(nm, obj)])"
  by (induction seen) (auto simp: named_item_def)

lemma merge_named_object:
  "andthen (py_items (named_object (nm, obj))) (\<lambda>items. merge_items items (map named_item seen)) =
     (if nm \<in> set (map fst seen) then Inl (DuplicateItem (PyStr nm))
      else Inr (map named_item (seen @ [(nm, obj)])))"
  using dict_get_named_items [of seen nm]
  by (simp add: named_object_def dict_contains_def dict_set_named_items)

lemma decode_entries_Suc:
  assumes "decode_entries clock (Suc n) s = (Inr (v # vs), s')"
  obtains s1 where "decode_next clock None s = (Inr v, s1)" "decode_entries clock n s1 = (Inr vs, s')"
  using assms by (auto split: prod.splits sum.splits)

lemma decode_entries_length:
  "decode_entries clock n s = (Inr vs, s') \<Longrightarrow> length vs = n"
  by (induction n arbitrary: s vs) (auto split: prod.splits sum.splits)

lemma top_level_entries_named:
  assumes "decode_entries clock (length entries) s = (Inr (map named_object entries), s')"
  shows "(distinct (map fst (seen @ entries)) \<longrightarrow>
           top_level_entries clock (length entries) (map named_item seen) s
             = (Inr (map named_item (seen @ entries)), s'))
       \<and> (distinct (map fst seen) \<and> \<not> distinct (map fst (seen @ entries)) \<longrightarrow>
           (\<exists>nm st. top_level_entries clock (length entries) (map named_item seen) s
                       = (Inl (DuplicateItem (PyStr nm)), st)
                    \<and> nm \<in> set (map fst entries)))"
  using assms
proof (induction entries arbitrary: s seen)
  case Nil
  then show ?case by simp
next
  case (Cons entry entries)
  obtain nm obj where e: "entry = (nm, obj)" by (cases entry)
  from Cons.prems have "decode_entries clock (Suc (length entries)) s
        = (Inr (named_object entry # map named_object entries), s')" by simp
  then obtain s1 where
    d1: "decode_next clock None s = (Inr (named_object entry), s1)" and
    d2: "decode_entries clock (length entries) s1 = (Inr (map named_object entries), s')"
    by (rule decode_entries_Suc)
  have step: "top_level_entries clock (Suc (length entries)) (map named_item seen) s =
      (if nm \<in> set (map fst seen) then (Inl (DuplicateItem (PyStr nm)), s1)
       else top_level_entries clock (length entries) (map named_item (seen @ [(nm, obj)])) s1)"
    using merge_named_object [of nm obj seen] by (simp add: d1 e)
  note IH = Cons.IH [OF d2, of "seen @ [(nm, obj)]"]
  show ?case
  proof (cases "nm \<in> set (map fst seen)")
    case True
    then show ?thesis using step by (auto simp: e)
  next
    case False
    have a: "distinct (map fst (seen @ entry # entries)) \<longrightarrow>
           top_level_entries clock (length (entry # entries)) (map named_item seen) s
             = (Inr (map named_item (seen @ entry # entries)), s')"
      using IH step False by (simp add: e)
    have b: "distinct (map fst seen) \<and> \<not> distinct (map fst (seen @ entry # entries)) \<longrightarrow>
           (\<exists>nm st. top_level_entries clock (length (entry # entries)) (map named_item seen) s
                       = (Inl (DuplicateItem (PyStr nm)), st)
                    \<and> nm \<in> set (map fst (entry # entries)))"
    proof
      assume h: "distinct (map fst seen) \<and> \<not> distinct (map fst (seen @ entry # entries))"
      then have "distinct (map fst (seen @ [(nm, obj)])) \<and> \<not> distinct (map fst ((seen @ [(nm, obj)]) @ entries))"
        using False by (simp add: e)
      with IH obtain nm' st where
        "top_level_entries clock (length entries) (map named_item (seen @ [(nm, obj)])) s1
            = (Inl (DuplicateItem (PyStr nm')), st)" "nm' \<in> set (map fst entries)"
        by blast
      then show "\<exists>nm st. top_level_entries clock (length (entry # entries)) (map named_item seen) s
                       = (Inl (DuplicateItem (PyStr nm)), st)
                    \<and> nm \<in> set (map fst (entry # entries))"
        using step False by auto
    qed
    show ?thesis using a b by (rule conjI)
  qed
qed

lemma deserialize_values_entries:
  assumes "decode_next clock None s2 = (Inr value_cnt, s3)" and "py_range value_cnt = Inr n"
  shows "deserialize_values clock s2 =
     (case top_level_entries clock n [] s3 of
        (Inl e, s4) \<Rightarrow> (Inl e, s4)
      | (Inr value, s4) \<Rightarrow>
          (Inr (PyDict value),
           if len_Deserializer (krds s4) \<noteq> 0
           then s4\<lparr>log := log s4 @ [Error_extra_data (len_Deserializer (krds s4))]\<rparr>
           else s4))"
  by (simp add: deserialize_values_def assms)

text \<open>
  C3. Take an input with a valid signature, a first value equal to 1 and a count \<open>n\<close>,
  whose \<open>n\<close> top-level entries decode, each to a named object \<^verbatim>\<open>{name: obj}\<close>. If two of
  the entries have the same name, \<^verbatim>\<open>deserialize\<close> fails with the duplicate item error for
  a name of the entries, whatever the objects are. If the names are all different, the
  mapping returned has exactly the names as its keys, each once, in the order of the
  entries, each with its object.
\<close>

theorem duplicate_top_level_name_is_fatal:
  assumes "krds_extract (PyInt (int (length SIGNATURE))) (self\<lparr>krds := Deserializer_init (data self)\<rparr>)
             = (Inr (PyBytes SIGNATURE), s1)"
    and "decode_next clock None s1 = (Inr first_value, s2)"
    and "py_eq_int first_value 1"
    and "decode_next clock None s2 = (Inr value_cnt, s3)"
    and "py_range value_cnt = Inr n"
    and "decode_entries clock n s3 = (Inr (map named_object entries), s4)"
  shows "(\<not> distinct (map fst entries) \<longrightarrow>
           (\<exists>nm st. deserialize clock self = (Inl (DuplicateItem (PyStr nm)), st)
                    \<and> nm \<in> set (map fst entries)))
       \<and> (distinct (map fst entries) \<longrightarrow>
           fst (deserialize clock self) = Inr (PyDict (map named_item entries)))"
proof -
  have n: "n = length entries"
    using decode_entries_length [OF assms(6)] by simp
  have d: "deserialize clock self = deserialize_values clock s2"
    using deserialize_after_signature [OF assms(1) assms(2)] assms(3) by simp
  note v = deserialize_values_entries [OF assms(4) assms(5)]
  note t = top_level_entries_named [OF assms(6) [unfolded n], of "[]"]
  have a: "\<not> distinct (map fst entries) \<longrightarrow>
           (\<exists>nm st. deserialize clock self = (Inl (DuplicateItem (PyStr nm)), st)
                    \<and> nm \<in> set (map fst entries))"
  proof
    assume "\<not> distinct (map fst entries)"
    with t obtain nm st where
      "top_level_entries clock (length entries) [] s3 = (Inl (DuplicateItem (PyStr nm)), st)"
      "nm \<in> set (map fst entries)"
      by auto
    then show "\<exists>nm st. deserialize clock self = (Inl (DuplicateItem (PyStr nm)), st)
                    \<and> nm \<in> set (map fst entries)"
      using d v n by auto
  qed
  have b: "distinct (map fst entries) \<longrightarrow>
           fst (deserialize clock self) = Inr (PyDict (map named_item entries))"
  proof
    assume "distinct (map fst entries)"
    with t have "top_level_entries clock (length entries) [] s3 = (Inr (map named_item entries), s4)"
      by simp
    then show "fst (deserialize clock self) = Inr (PyDict (map named_item entries))"
      using d v n by simp
  qed
  show ?thesis using a b by (rule conjI)
qed

theorem duplicate_top_level_name_is_fatal_witness:
  "\<not> distinct (map fst [(''lpu'', PyInt 42), (''lpu'', PyInt 7)])
   \<and> fst (deserialize fixed_clock (KindleReaderDataStore_init []
         (SIGNATURE @ [1, 0, 0, 0, 1, 1, 0, 0, 0, 2,
            0xFE, 0, 0, 3, 0x6C, 0x70, 0x75, 1, 0, 0, 0, 42, 0xFF,
            0xFE, 0, 0, 3, 0x6C, 0x70, 0x75, 1, 0, 0, 0, 7, 0xFF])))
       = Inl (DuplicateItem (PyStr ''lpu''))"
proof -
  let ?dat = "SIGNATURE @ [1, 0, 0, 0, 1, 1, 0, 0, 0, 2,
            0xFE, 0, 0, 3, 0x6C, 0x70, 0x75, 1, 0, 0, 0, 42, 0xFF,
            0xFE, 0, 0, 3, 0x6C, 0x70, 0x75, 1, 0, 0, 0, 7, 0xFF :: byte]"
  let ?self = "KindleReaderDataStore_init [] ?dat"
  let ?at = "\<lambda>k. ?self\<lparr>krds := \<lparr>buffer = ?dat, offset = k\<rparr>\<rparr>"
  let ?entries = "[(''lpu'', PyInt 42), (''lpu'', PyInt 7)]"
  have h1: "krds_extract (PyInt (int (length SIGNATURE))) (?self\<lparr>krds := Deserializer_init (data ?self)\<rparr>)
             = (Inr (PyBytes SIGNATURE), ?at 8)"
    by code_simp
  have h2: "decode_next fixed_clock None (?at 8) = (Inr (PyInt 1), ?at 13)"
    by code_simp
  have h3: "py_eq_int (PyInt 1) 1" by simp
  have h4: "decode_next fixed_clock None (?at 13) = (Inr (PyInt 2), ?at 18)"
    by code_simp
  have h5: "py_range (PyInt 2) = Inr 2" by simp
  have h6: "decode_entries fixed_clock 2 (?at 18) = (Inr (map named_object ?entries), ?at 44)"
    by code_simp
  have nd: "\<not> distinct (map fst ?entries)" by simp
  from duplicate_top_level_name_is_fatal [OF h1 h2 h3 h4 h5 h6, THEN conjunct1, THEN mp, OF nd]
  obtain nm st where
    r: "deserialize fixed_clock ?self = (Inl (DuplicateItem (PyStr nm)), st)"
    and m: "nm \<in> set (map fst ?entries)"
    by blast
  from m have "nm = ''lpu''" by simp
  with r have f: "fst (deserialize fixed_clock ?self) = Inl (DuplicateItem (PyStr ''lpu''))" by simp
  show ?thesis using nd f by (rule conjI)
qed

lemma unpack_from_trailing:
  assumes "0 \<le> off" "unpack_from f buf off = Inr v"
  shows "unpack_from f (buf @ extra) off = Inr v"
proof -
  have sz: "int (calcsize f) \<le> int (length buf) - off"
    using assms by (simp add: unpack_from_def Let_def split: if_splits)
  then have "nat off + calcsize f \<le> length buf" using assms(1) by linarith
  then have "take (calcsize f) (drop (nat off) (buf @ extra)) = take (calcsize f) (drop (nat off) buf)"
    by simp
  then show ?thesis
    using assms sz by (simp add: unpack_from_def Let_def split: if_splits)
qed

lemma krds_unpack_trailing:
  assumes "wf_cursor s" "krds_unpack f adv s = (Inr v, s')"
  shows "wf_cursor s' \<and> krds_unpack f adv (with_trailing extra s) = (Inr v, with_trailing extra s')"
proof -
  from assms(2) obtain u where u: "unpack_from f (buffer (krds s)) (offset (krds s)) = Inr u"
    by (cases "unpack_from f (buffer (krds s)) (offset (krds s))")
       (simp_all add: krds_unpack_def unpack_def)
  have lo: "0 \<le> offset (krds s)" using assms(1) by (simp add: wf_cursor_def)
  have sz: "int (calcsize f) \<le> int (length (buffer (krds s))) - offset (krds s)"
    using u lo by (simp add: unpack_from_def Let_def split: if_splits)
  have e: "unpack_from f (buffer (krds s) @ extra) (offset (krds s)) = Inr u"
    by (rule unpack_from_trailing [OF lo u])
  have s': "v = u \<and> s' = s\<lparr>krds := (if adv then (krds s)\<lparr>offset := offset (krds s) + int (calcsize f)\<rparr> else krds s)\<rparr>"
    using assms(2) u by (simp add: krds_unpack_def unpack_def)
  have w: "wf_cursor s'"
    using s' lo sz by (simp add: wf_cursor_def)
  have "krds_unpack f adv (with_trailing extra s) = (Inr v, with_trailing extra s')"
    using s' e by (simp add: krds_unpack_def unpack_def with_trailing_def)
  then show ?thesis using w by simp
qed

lemma krds_extract_trailing:
  assumes "wf_cursor s" "krds_extract (PyInt n) s = (Inr v, s')"
  shows "wf_cursor s' \<and> krds_extract (PyInt n) (with_trailing extra s) = (Inr v, with_trailing extra s')"
proof -
  let ?d = "krds s"
  have lo: "0 \<le> offset ?d" and hi: "offset ?d \<le> int (length (buffer ?d))"
    using assms(1) by (simp_all add: wf_cursor_def)
  have ok: "0 \<le> n \<and> n \<le> len_Deserializer ?d"
  proof (rule ccontr)
    assume "\<not> (0 \<le> n \<and> n \<le> len_Deserializer ?d)"
    from extract_fail [OF lo hi this, of True] show False
      using assms(2) by (simp add: krds_extract_def)
  qed
  have e: "extract_data (Some n) None True ?d =
     (Inr (take (nat n) (drop (nat (offset ?d)) (buffer ?d))), ?d\<lparr>offset := offset ?d + n\<rparr>)"
    using extract_ok [OF lo hi, of n True] ok by simp
  let ?d' = "?d\<lparr>buffer := buffer ?d @ extra\<rparr>"
  have ok': "n \<le> len_Deserializer ?d'" using ok by (simp add: len_Deserializer_def)
  have e': "extract_data (Some n) None True ?d' =
     (Inr (take (nat n) (drop (nat (offset ?d')) (buffer ?d'))), ?d'\<lparr>offset := offset ?d' + n\<rparr>)"
    using extract_ok [of ?d' n True] lo hi ok ok' by simp
  have fit: "nat (offset ?d) + nat n \<le> length (buffer ?d)"
    using ok lo by (simp add: len_Deserializer_def) linarith
  have same: "take (nat n) (drop (nat (offset ?d')) (buffer ?d')) = take (nat n) (drop (nat (offset ?d)) (buffer ?d))"
    using fit by simp
  have r: "v = PyBytes (take (nat n) (drop (nat (offset ?d)) (buffer ?d))) \<and> s' = s\<lparr>krds := ?d\<lparr>offset := offset ?d + n\<rparr>\<rparr>"
    using assms(2) e by (simp add: krds_extract_def)
  have w: "wf_cursor s'"
    using r ok lo by (simp add: wf_cursor_def len_Deserializer_def)
  have "krds_extract (PyInt n) (with_trailing extra s) = (Inr v, with_trailing extra s')"
    using r e' same by (simp add: krds_extract_def with_trailing_def)
  then show ?thesis using w by simp
qed

lemma unpack_H_is_int:
  assumes "krds_unpack Fmt_H adv s = (Inr v, s')"
  shows "\<exists>k. v = PyInt k"
  using assms
  by (auto simp: krds_unpack_def unpack_def unpack_from_def Let_def split: if_splits sum.splits)

lemma on_result_Inr:
  "on_result f r = (Inr v, s') \<Longrightarrow> \<exists>u. r = (Inr u, s') \<and> f u = Inr v"
  by (cases r) (auto simp: on_result_def split: sum.splits)

lemma utf_payload_trailing:
  assumes "wf_cursor s" "utf_payload s = (Inr v, s')"
  shows "wf_cursor s' \<and> utf_payload (with_trailing extra s) = (Inr v, with_trailing extra s')"
proof -
  obtain r s1 where u: "krds_unpack Fmt_H True s = (r, s1)" by (cases "krds_unpack Fmt_H True s")
  then obtain n where rn: "r = Inr n" and p: "on_result py_decode (krds_extract n s1) = (Inr v, s')"
    using assms(2) by (cases r) (simp_all add: utf_payload_def)
  from unpack_H_is_int u rn obtain k where k: "n = PyInt k" by blast
  from krds_unpack_trailing [OF assms(1), of Fmt_H True n s1 extra] u rn
  have w1: "wf_cursor s1" and u': "krds_unpack Fmt_H True (with_trailing extra s) = (Inr n, with_trailing extra s1)"
    by simp_all
  from on_result_Inr [OF p] obtain bs where
    x: "krds_extract n s1 = (Inr bs, s')" and d: "py_decode bs = Inr v" by blast
  from krds_extract_trailing [OF w1, of k bs s' extra] x k
  have w2: "wf_cursor s'" and x': "krds_extract n (with_trailing extra s1) = (Inr bs, with_trailing extra s')"
    by simp_all
  have "utf_payload (with_trailing extra s) = (Inr v, with_trailing extra s')"
    by (simp add: utf_payload_def u' x' on_result_def d)
  then show ?thesis using w2 by simp
qed

lemma krds_decode_object_trailing:
  assumes "krds_decode_object clock name val s = (r, s')"
  shows "krds_decode_object clock name val (with_trailing extra s) = (r, with_trailing extra s')
       \<and> (wf_cursor s \<longrightarrow> wf_cursor s')"
  using assms
  by (cases name)
     (auto simp: krds_decode_object_def with_trailing_def wf_cursor_def split: prod.splits)
lemma first_stage_trailing:
  assumes w: "wf_cursor s"
    and xy: "(case dta of None \<Rightarrow> krds_unpack Fmt_b True s | Some t \<Rightarrow> (Inr t, s)) = (Inr b, y)"
  shows "wf_cursor y \<and>
     (case dta of None \<Rightarrow> krds_unpack Fmt_b True (with_trailing extra s)
                | Some t \<Rightarrow> (Inr t, with_trailing extra s)) = (Inr b, with_trailing extra y)"
proof (cases dta)
  case None
  then show ?thesis using krds_unpack_trailing [OF w, of Fmt_b True b y extra] xy by simp
next
  case (Some t)
  then show ?thesis using w xy by auto
qed

lemma decode_trailing:
  "wf_cursor s \<Longrightarrow> decode_next clock dta s = (Inr v, s') \<Longrightarrow>
     wf_cursor s' \<and> decode_next clock dta (with_trailing extra s) = (Inr v, with_trailing extra s')"
  "wf_cursor s \<Longrightarrow> decode_children clock val s = (Inr vs, s') \<Longrightarrow>
     wf_cursor s' \<and> decode_children clock val (with_trailing extra s) = (Inr vs, with_trailing extra s')"
proof (induct clock dta s and clock val s arbitrary: v s' and vs s'
       rule: decode_next_decode_children.induct)
  case (1 clock dta s)
  obtain x y where xy: "(x, y) = (case dta of None \<Rightarrow> krds_unpack Fmt_b True s | Some t \<Rightarrow> (Inr t, s))"
    by (metis prod.collapse)
  have res: "decode_next clock dta s = (Inr v, s')" by (rule 1(5))
  have w: "wf_cursor s" by (rule 1(4))
  obtain b where xb: "x = Inr b"
    using res by (cases x) (simp_all add: decode_next.simps [of clock dta s] xy [symmetric])
  from first_stage_trailing [OF w, of dta b y extra] xy xb
  have wy: "wf_cursor y" and
    fst': "(case dta of None \<Rightarrow> krds_unpack Fmt_b True (with_trailing extra s)
                | Some t \<Rightarrow> (Inr t, with_trailing extra s)) = (Inr b, with_trailing extra y)"
    by simp_all
  note IH1 = 1(1) [OF xy xb]
  note IH2 = 1(2) [OF xy xb]
  note IH3 = 1(3) [OF xy xb]
  let ?body = "\<lambda>y. (if py_eq_int b 0 then on_result boolean_of (krds_unpack Fmt_b True y)
          else if py_eq_int b 1 then krds_unpack Fmt_l True y
          else if py_eq_int b 2 then krds_unpack Fmt_q True y
          else if py_eq_int b 3 then
            (case decode_next clock (Some (PyInt 0)) y of
               (Inl e, s2) \<Rightarrow> (Inl e, s2)
             | (Inr flag, s2) \<Rightarrow> if truthy flag then (Inr (PyStr ''''), s2) else utf_payload s2)
          else if py_eq_int b 4 then krds_unpack Fmt_d True y
          else if py_eq_int b 5 then krds_unpack Fmt_h True y
          else if py_eq_int b 6 then krds_unpack Fmt_f True y
          else if py_eq_int b 7 then krds_unpack Fmt_b True y
          else if py_eq_int b 9 then on_result py_decode (krds_unpack Fmt_c True y)
          else if py_eq_int b (- 2) then
            (case decode_next clock (Some (PyInt 3)) y of
               (Inl e, s2) \<Rightarrow> (Inl e, s2)
             | (Inr name, s2) \<Rightarrow>
                 (case decode_children clock [] s2 of
                    (Inl e, s3) \<Rightarrow> (Inl e, s3)
                  | (Inr val, s3) \<Rightarrow>
                      (case krds_unpack Fmt_b True s3 of
                         (Inl e, s4) \<Rightarrow> (Inl e, s4)
                       | (Inr end_tag, s4) \<Rightarrow> krds_decode_object clock name val s4)))
          else (Inl (UnknownDatatype b), y))"
  have eq: "decode_next clock dta s = ?body y"
    by (simp add: decode_next.simps [of clock dta s] xy [symmetric] xb)
  have eq': "decode_next clock dta (with_trailing extra s) = ?body (with_trailing extra y)"
    by (simp add: decode_next.simps [of clock dta "with_trailing extra s"] fst')
  have unp: "\<And>f. krds_unpack f True y = (Inr v, s') \<Longrightarrow>
      wf_cursor s' \<and> krds_unpack f True (with_trailing extra y) = (Inr v, with_trailing extra s')"
    by (rule krds_unpack_trailing [OF wy])
  have conv: "\<And>f g. on_result g (krds_unpack f True y) = (Inr v, s') \<Longrightarrow>
      wf_cursor s' \<and> on_result g (krds_unpack f True (with_trailing extra y)) = (Inr v, with_trailing extra s')"
  proof -
    fix f g
    assume "on_result g (krds_unpack f True y) = (Inr v, s')"
    from on_result_Inr [OF this] obtain u where
      u: "krds_unpack f True y = (Inr u, s')" and g: "g u = Inr v" by blast
    from krds_unpack_trailing [OF wy u, of extra] g
    show "wf_cursor s' \<and> on_result g (krds_unpack f True (with_trailing extra y)) = (Inr v, with_trailing extra s')"
      by (simp add: on_result_def)
  qed
  have goal: "wf_cursor s' \<and> ?body (with_trailing extra y) = (Inr v, with_trailing extra s')"
  proof -
    consider (utf) "\<not> py_eq_int b 0" "\<not> py_eq_int b 1" "\<not> py_eq_int b 2" "py_eq_int b 3"
      | (obj) "\<not> py_eq_int b 0" "\<not> py_eq_int b 1" "\<not> py_eq_int b 2" "\<not> py_eq_int b 3"
          "\<not> py_eq_int b 4" "\<not> py_eq_int b 5" "\<not> py_eq_int b 6" "\<not> py_eq_int b 7"
          "\<not> py_eq_int b 9" "py_eq_int b (- 2)"
      | (prim) "py_eq_int b 0 \<or> py_eq_int b 1 \<or> py_eq_int b 2 \<or> (\<not> py_eq_int b 3 \<and>
          (py_eq_int b 4 \<or> py_eq_int b 5 \<or> py_eq_int b 6 \<or> py_eq_int b 7 \<or> py_eq_int b 9 \<or> \<not> py_eq_int b (- 2)))"
      by blast
    then show ?thesis
    proof cases
      case utf
      obtain r2 s2 where r2: "decode_next clock (Some (PyInt 0)) y = (r2, s2)"
        by (cases "decode_next clock (Some (PyInt 0)) y")
      from res eq utf r2 obtain flag where fl: "r2 = Inr flag"
        by (cases r2) simp_all
      from IH1 [OF utf wy r2 [unfolded fl]]
      have w2: "wf_cursor s2" and
        r2': "decode_next clock (Some (PyInt 0)) (with_trailing extra y) = (Inr flag, with_trailing extra s2)"
        by simp_all
      show ?thesis
      proof (cases "truthy flag")
        case True
        then show ?thesis using res eq utf r2 fl w2 r2' by simp
      next
        case False
        then have "utf_payload s2 = (Inr v, s')" using res eq utf r2 fl by simp
        from utf_payload_trailing [OF w2 this, of extra]
        show ?thesis using utf r2' False by simp
      qed
    next
      case obj
      obtain r2 s2 where r2: "decode_next clock (Some (PyInt 3)) y = (r2, s2)"
        by (cases "decode_next clock (Some (PyInt 3)) y")
      from res eq obj r2 obtain name where nm: "r2 = Inr name"
        by (cases r2) simp_all
      from IH2 [OF obj wy r2 [unfolded nm]]
      have w2: "wf_cursor s2" and
        r2': "decode_next clock (Some (PyInt 3)) (with_trailing extra y) = (Inr name, with_trailing extra s2)"
        by simp_all
      obtain r3 s3 where r3: "decode_children clock [] s2 = (r3, s3)"
        by (cases "decode_children clock [] s2")
      from res eq obj r2 nm r3 obtain val where vl: "r3 = Inr val"
        by (cases r3) simp_all
      from IH3 [OF obj r2 [symmetric] nm w2 r3 [unfolded vl]]
      have w3: "wf_cursor s3" and
        r3': "decode_children clock [] (with_trailing extra s2) = (Inr val, with_trailing extra s3)"
        by simp_all
      obtain r4 s4 where r4: "krds_unpack Fmt_b True s3 = (r4, s4)"
        by (cases "krds_unpack Fmt_b True s3")
      from res eq obj r2 nm r3 vl r4 obtain end_tag where et: "r4 = Inr end_tag"
        by (cases r4) simp_all
      from krds_unpack_trailing [OF w3, of Fmt_b True end_tag s4 extra] r4 et
      have w4: "wf_cursor s4" and
        r4': "krds_unpack Fmt_b True (with_trailing extra s3) = (Inr end_tag, with_trailing extra s4)"
        by simp_all
      have fin: "krds_decode_object clock name val s4 = (Inr v, s')"
        using res eq obj r2 nm r3 vl r4 et by simp
      from krds_decode_object_trailing [OF fin, of extra] w4
      show ?thesis using obj r2' r3' r4' by simp
    next
      case prim
      then show ?thesis using res eq unp [of Fmt_l] unp [of Fmt_q] unp [of Fmt_d]
          unp [of Fmt_h] unp [of Fmt_f] unp [of Fmt_b]
          conv [of boolean_of Fmt_b] conv [of py_decode Fmt_c]
        by (auto split: if_splits)
    qed
  qed
  show ?case using goal eq' by simp
next
  case (2 clock val s)
  obtain x y where xy: "(x, y) = krds_unpack Fmt_b False s" by (metis prod.collapse)
  have ys: "y = s" using krds_unpack_peek [of Fmt_b s x y] xy by simp
  have res: "decode_children clock val s = (Inr vs, s')" by (rule 2(4))
  have w: "wf_cursor s" by (rule 2(3))
  obtain tag where xt: "x = Inr tag"
    using res by (cases x) (simp_all add: decode_children.simps [of clock val s] xy [symmetric])
  from krds_unpack_trailing [OF w, of Fmt_b False tag y extra] xy xt
  have pk': "krds_unpack Fmt_b False (with_trailing extra s) = (Inr tag, with_trailing extra s)"
    using ys by simp
  show ?case
  proof (cases "py_eq_int tag (- 1)")
    case True
    then have "vs = val \<and> s' = s"
      using res ys xt by (simp add: decode_children.simps [of clock val s] xy [symmetric])
    then show ?thesis
      using True w by (simp add: decode_children.simps [of clock val "with_trailing extra s"] pk')
  next
    case False
    obtain r2 s2 where r2: "decode_next clock None y = (r2, s2)"
      by (cases "decode_next clock None y")
    from res r2 ys xt False obtain u where ru: "r2 = Inr u"
      by (cases r2) (simp_all add: decode_children.simps [of clock val s] xy [symmetric])
    from 2(1) [OF xy xt False w [folded ys] r2 [unfolded ru]] ys
    have w2: "wf_cursor s2" and
      r2': "decode_next clock None (with_trailing extra s) = (Inr u, with_trailing extra s2)"
      by simp_all
    have rest: "decode_children clock (val @ [u]) s2 = (Inr vs, s')"
      using res r2 ys xt False ru
      by (simp add: decode_children.simps [of clock val s] xy [symmetric])
    from 2(2) [OF xy xt False r2 [symmetric] ru w2 rest]
    have "wf_cursor s' \<and> decode_children clock (val @ [u]) (with_trailing extra s2)
           = (Inr vs, with_trailing extra s')" .
    then show ?thesis
      using False by (simp add: decode_children.simps [of clock val "with_trailing extra s"] pk' r2')
  qed
qed


lemma len_with_trailing [simp]:
  "len_Deserializer (krds (with_trailing extra s)) = len_Deserializer (krds s) + int (length extra)"
  by (simp add: with_trailing_def len_Deserializer_def)

lemma log_with_trailing [simp]: "log (with_trailing extra s) = log s"
  by (simp add: with_trailing_def)

lemma with_trailing_log_update:
  "with_trailing extra (s\<lparr>log := l\<rparr>) = (with_trailing extra s)\<lparr>log := l\<rparr>"
  by (simp add: with_trailing_def)

lemma wf_cursor_len: "wf_cursor s \<Longrightarrow> 0 \<le> len_Deserializer (krds s)"
  by (simp add: wf_cursor_def len_Deserializer_def)

lemma init_with_trailing:
  "(KindleReaderDataStore_init lg (dat @ extra))
      \<lparr>krds := Deserializer_init (data (KindleReaderDataStore_init lg (dat @ extra)))\<rparr>
   = with_trailing extra
       ((KindleReaderDataStore_init lg dat)\<lparr>krds := Deserializer_init (data (KindleReaderDataStore_init lg dat))\<rparr>)"
  by (simp add: KindleReaderDataStore_init_def Deserializer_init_def with_trailing_def)

lemma wf_cursor_init:
  "wf_cursor ((KindleReaderDataStore_init lg dat)\<lparr>krds := Deserializer_init (data (KindleReaderDataStore_init lg dat))\<rparr>)"
  by (simp add: KindleReaderDataStore_init_def Deserializer_init_def wf_cursor_def)

lemma top_level_entries_trailing:
  "wf_cursor s \<Longrightarrow> top_level_entries clock n acc s = (Inr acc', s') \<Longrightarrow>
     wf_cursor s' \<and>
     top_level_entries clock n acc (with_trailing extra s) = (Inr acc', with_trailing extra s')"
proof (induction n arbitrary: acc s)
  case 0
  then show ?case by simp
next
  case (Suc n)
  obtain r s1 where d: "decode_next clock None s = (r, s1)" by (cases "decode_next clock None s")
  from Suc.prems(2) d obtain val where rv: "r = Inr val" by (cases r) simp_all
  from decode_trailing(1) [OF Suc.prems(1) d [unfolded rv], of extra]
  have w1: "wf_cursor s1" and
    d': "decode_next clock None (with_trailing extra s) = (Inr val, with_trailing extra s1)"
    by simp_all
  obtain m where m: "andthen (py_items val) (\<lambda>items. merge_items items acc) = m" by simp
  from Suc.prems(2) d rv m obtain acc1 where mv: "m = Inr acc1"
    by (cases m) simp_all
  have rest: "top_level_entries clock n acc1 s1 = (Inr acc', s')"
    using Suc.prems(2) d rv m mv by simp
  from Suc.IH [OF w1 rest] show ?case using d' m mv by simp
qed

lemma deserialize_values_trailing:
  assumes w: "wf_cursor s2" and r: "deserialize_values clock s2 = (Inr v, s)" and e: "extra \<noteq> []"
  shows "(len_Deserializer (krds s) \<noteq> 0 \<longrightarrow>
            log s = butlast (log s) @ [Error_extra_data (len_Deserializer (krds s))])
       \<and> (\<exists>s'. deserialize_values clock (with_trailing extra s2) = (Inr v, s')
            \<and> len_Deserializer (krds s') = len_Deserializer (krds s) + int (length extra)
            \<and> log s' = (if len_Deserializer (krds s) = 0 then log s else butlast (log s))
                        @ [Error_extra_data (len_Deserializer (krds s'))])"
proof -
  obtain r3 s3 where d: "decode_next clock None s2 = (r3, s3)" by (cases "decode_next clock None s2")
  from r d obtain cnt where rc: "r3 = Inr cnt" by (cases r3) (simp_all add: deserialize_values_def)
  from decode_trailing(1) [OF w d [unfolded rc], of extra]
  have w3: "wf_cursor s3" and
    d': "decode_next clock None (with_trailing extra s2) = (Inr cnt, with_trailing extra s3)"
    by simp_all
  from r d rc obtain n where pn: "py_range cnt = Inr n"
    by (cases "py_range cnt") (simp_all add: deserialize_values_def)
  obtain r4 s4 where t: "top_level_entries clock n [] s3 = (r4, s4)"
    by (cases "top_level_entries clock n [] s3")
  from r d rc pn t obtain entries where rv: "r4 = Inr entries"
    by (cases r4) (simp_all add: deserialize_values_def)
  from top_level_entries_trailing [OF w3 t [unfolded rv], of extra]
  have w4: "wf_cursor s4" and
    t': "top_level_entries clock n [] (with_trailing extra s3) = (Inr entries, with_trailing extra s4)"
    by simp_all
  have k: "0 \<le> len_Deserializer (krds s4)" using w4 by (rule wf_cursor_len)
  have v: "v = PyDict entries" and
    s: "s = (if len_Deserializer (krds s4) \<noteq> 0
             then s4\<lparr>log := log s4 @ [Error_extra_data (len_Deserializer (krds s4))]\<rparr> else s4)"
    using r d rc pn t rv by (simp_all add: deserialize_values_def)
  have len: "len_Deserializer (krds s) = len_Deserializer (krds s4)" using s by simp
  have "0 < length extra" using e by simp
  then have pos: "len_Deserializer (krds s4) + int (length extra) \<noteq> 0" using k by linarith
  have r': "deserialize_values clock (with_trailing extra s2) =
      (Inr v, (with_trailing extra s4)\<lparr>log := log s4 @
           [Error_extra_data (len_Deserializer (krds s4) + int (length extra))]\<rparr>)"
    using pos by (simp add: deserialize_values_def d' pn t' v)
  have a: "len_Deserializer (krds s) \<noteq> 0 \<longrightarrow>
            log s = butlast (log s) @ [Error_extra_data (len_Deserializer (krds s))]"
    using s by simp
  have b: "(if len_Deserializer (krds s) = 0 then log s else butlast (log s)) = log s4"
    using s by simp
  show ?thesis using a b r' len by simp
qed

lemma deserialize_Inr:
  assumes "deserialize clock self = (Inr v, s)"
  obtains s1 first_value s2 where
    "krds_extract (PyInt (int (length SIGNATURE))) (self\<lparr>krds := Deserializer_init (data self)\<rparr>)
       = (Inr (PyBytes SIGNATURE), s1)"
    "decode_next clock None s1 = (Inr first_value, s2)"
    "py_eq_int first_value 1"
    "deserialize_values clock s2 = (Inr v, s)"
  using assms
  by (auto simp: deserialize_def Let_def split: prod.splits sum.splits if_splits)


text \<open>
  C5. Take an input on which \<^verbatim>\<open>deserialize\<close> returns a mapping, and let \<open>k\<close> be the number
  of bytes it left unconsumed. If \<open>k\<close> is not 0, the last record of the log is the error
  record that carries \<open>k\<close>. With any further bytes at the end of the input,
  \<^verbatim>\<open>deserialize\<close> still returns, and returns the same mapping; it leaves \<open>k\<close> plus the
  number of further bytes unconsumed, and its log is the log of the first decode up to
  the error record, followed by one error record that carries the new count.
\<close>

theorem trailing_bytes_reported_not_fatal:
  assumes "deserialize clock (KindleReaderDataStore_init lg dat) = (Inr v, s)"
    and "extra \<noteq> []"
  shows "(len_Deserializer (krds s) \<noteq> 0 \<longrightarrow>
            log s = butlast (log s) @ [Error_extra_data (len_Deserializer (krds s))])
       \<and> (\<exists>s'. deserialize clock (KindleReaderDataStore_init lg (dat @ extra)) = (Inr v, s')
            \<and> len_Deserializer (krds s') = len_Deserializer (krds s) + int (length extra)
            \<and> log s' = (if len_Deserializer (krds s) = 0 then log s else butlast (log s))
                        @ [Error_extra_data (len_Deserializer (krds s'))])"
proof -
  let ?self = "KindleReaderDataStore_init lg dat"
  let ?self' = "KindleReaderDataStore_init lg (dat @ extra)"
  let ?s0 = "?self\<lparr>krds := Deserializer_init (data ?self)\<rparr>"
  from assms(1) obtain s1 first_value s2 where
    h1: "krds_extract (PyInt (int (length SIGNATURE))) ?s0 = (Inr (PyBytes SIGNATURE), s1)" and
    h2: "decode_next clock None s1 = (Inr first_value, s2)" and
    h3: "py_eq_int first_value 1" and
    h4: "deserialize_values clock s2 = (Inr v, s)"
    by (rule deserialize_Inr)
  have w0: "wf_cursor ?s0" by (rule wf_cursor_init)
  from krds_extract_trailing [OF w0 h1, of extra]
  have w1: "wf_cursor s1" and
    h1': "krds_extract (PyInt (int (length SIGNATURE)))
            (?self'\<lparr>krds := Deserializer_init (data ?self')\<rparr>)
          = (Inr (PyBytes SIGNATURE), with_trailing extra s1)"
    by (simp_all only: init_with_trailing)
  from decode_trailing(1) [OF w1 h2, of extra]
  have w2: "wf_cursor s2" and
    h2': "decode_next clock None (with_trailing extra s1) = (Inr first_value, with_trailing extra s2)"
    by simp_all
  have d': "deserialize clock ?self' = deserialize_values clock (with_trailing extra s2)"
    using deserialize_after_signature [OF h1' h2'] h3 by simp
  show ?thesis
    unfolding d' by (rule deserialize_values_trailing [OF w2 h4 assms(2)])
qed

theorem trailing_bytes_reported_not_fatal_witness:
  "deserialize fixed_clock (KindleReaderDataStore_init []
       (SIGNATURE @ [1, 0, 0, 0, 1, 1, 0, 0, 0, 1,
          0xFE, 0, 0, 3, 0x6C, 0x70, 0x75, 1, 0, 0, 0, 42, 0xFF]))
     = (Inr (PyDict [(PyStr ''lpu'', PyInt 42)]),
        (KindleReaderDataStore_init []
           (SIGNATURE @ [1, 0, 0, 0, 1, 1, 0, 0, 0, 1,
              0xFE, 0, 0, 3, 0x6C, 0x70, 0x75, 1, 0, 0, 0, 42, 0xFF]))
          \<lparr>krds := \<lparr>buffer = SIGNATURE @ [1, 0, 0, 0, 1, 1, 0, 0, 0, 1,
              0xFE, 0, 0, 3, 0x6C, 0x70, 0x75, 1, 0, 0, 0, 42, 0xFF], offset = 31\<rparr>\<rparr>)
   \<and> [7, 7 :: byte] \<noteq> [] \<and> [9 :: byte] \<noteq> []
   \<and> (\<exists>s'. deserialize fixed_clock (KindleReaderDataStore_init []
         ((SIGNATURE @ [1, 0, 0, 0, 1, 1, 0, 0, 0, 1,
            0xFE, 0, 0, 3, 0x6C, 0x70, 0x75, 1, 0, 0, 0, 42, 0xFF]) @ [7, 7]))
         = (Inr (PyDict [(PyStr ''lpu'', PyInt 42)]), s')
       \<and> len_Deserializer (krds s') = 2
       \<and> log s' = [Error_extra_data 2])
   \<and> (\<exists>s'. deserialize fixed_clock (KindleReaderDataStore_init []
         (((SIGNATURE @ [1, 0, 0, 0, 1, 1, 0, 0, 0, 1,
            0xFE, 0, 0, 3, 0x6C, 0x70, 0x75, 1, 0, 0, 0, 42, 0xFF]) @ [7, 7]) @ [9]))
         = (Inr (PyDict [(PyStr ''lpu'', PyInt 42)]), s')
       \<and> len_Deserializer (krds s') = 3
       \<and> log s' = [Error_extra_data 3])"
proof -
  let ?dat = "SIGNATURE @ [1, 0, 0, 0, 1, 1, 0, 0, 0, 1,
            0xFE, 0, 0, 3, 0x6C, 0x70, 0x75, 1, 0, 0, 0, 42, 0xFF :: byte]"
  let ?v = "PyDict [(PyStr ''lpu'', PyInt 42)]"
  let ?s = "(KindleReaderDataStore_init [] ?dat)\<lparr>krds := \<lparr>buffer = ?dat, offset = 31\<rparr>\<rparr>"
  have h: "deserialize fixed_clock (KindleReaderDataStore_init [] ?dat) = (Inr ?v, ?s)"
    by code_simp
  have e1: "[7, 7 :: byte] \<noteq> []" by simp
  have e2: "[9 :: byte] \<noteq> []" by simp
  have k: "len_Deserializer (krds ?s) = 0" by (simp add: len_Deserializer_def SIGNATURE_def)
  have l: "log ?s = []" by (simp add: KindleReaderDataStore_init_def)
  from trailing_bytes_reported_not_fatal [OF h e1, THEN conjunct2]
  obtain s1 where
    d1: "deserialize fixed_clock (KindleReaderDataStore_init [] (?dat @ [7, 7])) = (Inr ?v, s1)" and
    k1: "len_Deserializer (krds s1) = len_Deserializer (krds ?s) + int (length [7, 7 :: byte])" and
    l1: "log s1 = (if len_Deserializer (krds ?s) = 0 then log ?s else butlast (log ?s))
                        @ [Error_extra_data (len_Deserializer (krds s1))]"
    by (elim exE conjE)
  have k1': "len_Deserializer (krds s1) = 2" using k1 by (simp only: k) simp
  have l1': "log s1 = [Error_extra_data 2]" using l1 by (simp only: k l k1') simp
  from trailing_bytes_reported_not_fatal [OF d1 e2, THEN conjunct2]
  obtain s2 where
    d2: "deserialize fixed_clock (KindleReaderDataStore_init [] ((?dat @ [7, 7]) @ [9])) = (Inr ?v, s2)" and
    k2: "len_Deserializer (krds s2) = len_Deserializer (krds s1) + int (length [9 :: byte])" and
    l2: "log s2 = (if len_Deserializer (krds s1) = 0 then log s1 else butlast (log s1))
                        @ [Error_extra_data (len_Deserializer (krds s2))]"
    by (elim exE conjE)
  have k2': "len_Deserializer (krds s2) = 3" using k2 by (simp only: k1') simp
  have l2': "log s2 = [Error_extra_data 3]" using l2 by (simp only: k1' l1' k2') simp
  have a: "\<exists>s'. deserialize fixed_clock (KindleReaderDataStore_init [] (?dat @ [7, 7])) = (Inr ?v, s')
       \<and> len_Deserializer (krds s') = 2 \<and> log s' = [Error_extra_data 2]"
    using d1 k1' l1' by blast
  have b: "\<exists>s'. deserialize fixed_clock (KindleReaderDataStore_init [] ((?dat @ [7, 7]) @ [9])) = (Inr ?v, s')
       \<and> len_Deserializer (krds s') = 3 \<and> log s' = [Error_extra_data 3]"
    using d2 k2' l2' by blast
  show ?thesis using h e1 e2 a b by (intro conjI)
qed


end
